theory Spec2Isabelle
  imports Main "HOL-Library.Multiset"
begin

section \<open>Matching worker: data model\<close>

text \<open>
  The worker of \<^verbatim>\<open>backend/matching-service/workers/matchWorker.ts\<close> reads waiting
  users from a sorted set, pairs compatible ones and evicts the ones that timed out.

  A user's attribute record is the object that \<^verbatim>\<open>hGetAll\<close> returns. A field the
  object does not have is \<^verbatim>\<open>undefined\<close> in the source and \<open>None\<close> here, so that
  \<^verbatim>\<open>===\<close> on two fields is equality of options and \<^verbatim>\<open>||\<close> can tell an absent or
  empty field from a filled one. \<open>requestedAt\<close> is the number that \<^verbatim>\<open>parseInt\<close>
  reads from the stored field (a millisecond timestamp written by the enqueueing
  side), or \<open>None\<close> for \<^verbatim>\<open>NaN\<close>, which is what \<^verbatim>\<open>parseInt\<close> yields when the
  field is absent; times are mathematical integers.
\<close>

record userData =
  userId :: "string option"
  socketId :: "string option"
  category :: "string option"
  difficulty :: "string option"
  requestedAt :: "int option"

text \<open>The object without fields, \<^verbatim>\<open>{}\<close>.\<close>

definition empty_object :: userData where
  "empty_object = \<lparr>userId = None, socketId = None, category = None, difficulty = None,
     requestedAt = None\<rparr>"

text \<open>
  Numbers that may be \<^verbatim>\<open>NaN\<close>: a difference with \<^verbatim>\<open>NaN\<close> is \<^verbatim>\<open>NaN\<close>, and
  every comparison with \<^verbatim>\<open>NaN\<close> is false.
\<close>

definition num_minus :: "int \<Rightarrow> int option \<Rightarrow> int option" where
  "num_minus a b = (case b of None \<Rightarrow> None | Some y \<Rightarrow> Some (a - y))"

definition num_le :: "int option \<Rightarrow> int \<Rightarrow> bool" where
  "num_le a b = (case a of None \<Rightarrow> False | Some x \<Rightarrow> x \<le> b)"

definition num_ge :: "int option \<Rightarrow> int \<Rightarrow> bool" where
  "num_ge a b = (case a of None \<Rightarrow> False | Some x \<Rightarrow> x \<ge> b)"

text \<open>The object \<^verbatim>\<open>{ category, difficulty }\<close> that \<^verbatim>\<open>getRelaxedCriteria\<close> returns.\<close>

record criteria =
  crit_category :: "string option"
  crit_difficulty :: "string option"

text \<open>The three settings read from the environment at module load.\<close>

record config =
  MATCHING_INTERVAL :: int
  RELAXATION_INTERVAL :: int
  MATCH_TIMEOUT :: int

definition default_config :: config where
  "default_config =
     \<lparr>MATCHING_INTERVAL = 3000, RELAXATION_INTERVAL = 10000, MATCH_TIMEOUT = 30000\<rparr>"

section \<open>Relaxation policy\<close>

text \<open>
  \<^verbatim>\<open>getRelaxationLevel\<close> reads the clock itself; the reading is the argument
  \<open>now\<close>.
\<close>

definition getRelaxationLevel :: "config \<Rightarrow> int \<Rightarrow> userData \<Rightarrow> int" where
  "getRelaxationLevel cfg now u =
     (let elapsedTime = num_minus now (requestedAt u) in
      if num_le elapsedTime (RELAXATION_INTERVAL cfg) then 0
      else if num_le elapsedTime (RELAXATION_INTERVAL cfg * 2) then 1
      else 2)"

definition getRelaxedCriteria :: "int \<Rightarrow> userData \<Rightarrow> criteria" where
  "getRelaxedCriteria relaxationLevel u =
     (if relaxationLevel = 0 then
        \<lparr>crit_category = category u, crit_difficulty = difficulty u\<rparr>
      else if relaxationLevel = 1 then
        \<lparr>crit_category = category u, crit_difficulty = Some ''Any''\<rparr>
      else if relaxationLevel = 2 then
        \<lparr>crit_category = Some ''Any'', crit_difficulty = difficulty u\<rparr>
      else
        \<lparr>crit_category = category u, crit_difficulty = difficulty u\<rparr>)"

section \<open>Compatibility of two users\<close>

definition isCriteriaSatisfied :: "userData \<Rightarrow> criteria \<Rightarrow> bool" where
  "isCriteriaSatisfied u relaxedCriteria =
     (let categoryMatch =
            (crit_category relaxedCriteria = Some ''Any''
             \<or> category u = crit_category relaxedCriteria);
          difficultyMatch =
            (crit_difficulty relaxedCriteria = Some ''Any''
             \<or> difficulty u = crit_difficulty relaxedCriteria)
      in categoryMatch \<and> difficultyMatch)"

text \<open>
  The first loop of \<^verbatim>\<open>canUsersMatch\<close>: \<open>i\<close> runs from its start value up to
  \<open>relaxationLevel1\<close> and the criteria of \<open>user1\<close> relaxed to level \<open>i\<close> are tried
  on \<open>user2\<close>.
\<close>

function sweep_user1 :: "userData \<Rightarrow> userData \<Rightarrow> int \<Rightarrow> int \<Rightarrow> bool \<Rightarrow> bool" where
  "sweep_user1 user1 user2 relaxationLevel1 i satisfied =
     (if i \<le> relaxationLevel1 then
        (let relaxedCriteria1 = getRelaxedCriteria i user1 in
         sweep_user1 user1 user2 relaxationLevel1 (i + 1)
           (satisfied \<or> isCriteriaSatisfied user2 relaxedCriteria1))
      else satisfied)"
  by pat_completeness auto
termination
  by (relation "measure (\<lambda>(user1, user2, relaxationLevel1, i, satisfied).
        nat (relaxationLevel1 + 1 - i))") auto

text \<open>
  The second loop: \<open>i\<close> runs over the same kind of range, but the body relaxes
  \<open>user2\<close> to \<open>relaxationLevel2\<close> in every round, not to \<open>i\<close>.
\<close>

function sweep_user2 :: "userData \<Rightarrow> userData \<Rightarrow> int \<Rightarrow> int \<Rightarrow> bool \<Rightarrow> bool" where
  "sweep_user2 user1 user2 relaxationLevel2 i satisfied =
     (if i \<le> relaxationLevel2 then
        (let relaxedCriteria2 = getRelaxedCriteria relaxationLevel2 user2 in
         sweep_user2 user1 user2 relaxationLevel2 (i + 1)
           (satisfied \<or> isCriteriaSatisfied user1 relaxedCriteria2))
      else satisfied)"
  by pat_completeness auto
termination
  by (relation "measure (\<lambda>(user1, user2, relaxationLevel2, i, satisfied).
        nat (relaxationLevel2 + 1 - i))") auto

definition canUsersMatch :: "userData \<Rightarrow> userData \<Rightarrow> int \<Rightarrow> int \<Rightarrow> bool" where
  "canUsersMatch user1 user2 relaxationLevel1 relaxationLevel2 =
     (if relaxationLevel1 < 0 \<or> relaxationLevel1 > 2 then False
      else
        (let satisfied = sweep_user1 user1 user2 relaxationLevel1 0 False in
         if relaxationLevel2 < 0 \<or> relaxationLevel2 > 2 then False
         else sweep_user2 user1 user2 relaxationLevel2 0 satisfied))"

text \<open>
  The same function with a record of its calls: besides the result it returns the
  level argument of every call of \<^verbatim>\<open>getRelaxedCriteria\<close> it makes, in the order of
  the calls.
\<close>

function sweep_user1_calls ::
  "userData \<Rightarrow> userData \<Rightarrow> int \<Rightarrow> int \<Rightarrow> bool \<times> int list \<Rightarrow> bool \<times> int list" where
  "sweep_user1_calls user1 user2 relaxationLevel1 i (satisfied, calls) =
     (if i \<le> relaxationLevel1 then
        (let relaxedCriteria1 = getRelaxedCriteria i user1 in
         sweep_user1_calls user1 user2 relaxationLevel1 (i + 1)
           (satisfied \<or> isCriteriaSatisfied user2 relaxedCriteria1, calls @ [i]))
      else (satisfied, calls))"
  by pat_completeness auto
termination
  by (relation "measure (\<lambda>(user1, user2, relaxationLevel1, i, acc).
        nat (relaxationLevel1 + 1 - i))") auto

function sweep_user2_calls ::
  "userData \<Rightarrow> userData \<Rightarrow> int \<Rightarrow> int \<Rightarrow> bool \<times> int list \<Rightarrow> bool \<times> int list" where
  "sweep_user2_calls user1 user2 relaxationLevel2 i (satisfied, calls) =
     (if i \<le> relaxationLevel2 then
        (let relaxedCriteria2 = getRelaxedCriteria relaxationLevel2 user2 in
         sweep_user2_calls user1 user2 relaxationLevel2 (i + 1)
           (satisfied \<or> isCriteriaSatisfied user1 relaxedCriteria2,
            calls @ [relaxationLevel2]))
      else (satisfied, calls))"
  by pat_completeness auto
termination
  by (relation "measure (\<lambda>(user1, user2, relaxationLevel2, i, acc).
        nat (relaxationLevel2 + 1 - i))") auto

definition canUsersMatch_calls ::
  "userData \<Rightarrow> userData \<Rightarrow> int \<Rightarrow> int \<Rightarrow> bool \<times> int list" where
  "canUsersMatch_calls user1 user2 relaxationLevel1 relaxationLevel2 =
     (if relaxationLevel1 < 0 \<or> relaxationLevel1 > 2 then (False, [])
      else
        (let acc = sweep_user1_calls user1 user2 relaxationLevel1 0 (False, []) in
         if relaxationLevel2 < 0 \<or> relaxationLevel2 > 2 then (False, snd acc)
         else sweep_user2_calls user1 user2 relaxationLevel2 0 acc))"

section \<open>Stores and collaborators\<close>

text \<open>
  What the worker writes: the document saved through \<^verbatim>\<open>MatchingEventModel\<close>, the
  document saved through \<^verbatim>\<open>Room\<close>, and the message added to the stream
  \<^verbatim>\<open>match_events\<close>. The two strings of the message that the source builds with
  \<^verbatim>\<open>JSON.stringify\<close> are kept as the objects they serialise.
\<close>

record matchingEvent =
  event_category :: string
  event_difficulty :: string

record room =
  participants :: "string option list"
  room_category :: string
  room_difficulty :: string

record userSummary =
  summary_userId :: "string option"
  summary_socketId :: "string option"
  summary_category :: "string option"
  summary_difficulty :: "string option"

record matchMessage =
  msg_user1 :: userSummary
  msg_user2 :: userSummary
  msg_roomId :: string
  msg_matchId :: string

datatype socket_event = MATCH_FAILED string

datatype error = QueueDumpFailed | EventSaveFailed | RoomSaveFailed | StreamAppendFailed

text \<open>
  The console lines that the properties below read: the line
  \<^verbatim>\<open>Match created between:\<close> with its two keys and records, and the line that
  the \<^verbatim>\<open>catch\<close> of \<^verbatim>\<open>handleMatch\<close> prints. The other \<^verbatim>\<open>console.log\<close> lines carry
  no data of the worker's own and are left out.
\<close>

datatype log_line =
  Match_created string userData string userData
| Error_in_handleMatch error

text \<open>
  Modelled from the spec: the Redis client (\<^verbatim>\<open>utils/redisClient\<close>), the socket
  registry (\<^verbatim>\<open>utils/socket\<close>) and the two Mongo models are not among the sources.
  The store follows the contract of the spec's section 6: the queue is an ordered
  sequence of keys (a sorted set holds each key once; the statements that need this
  say so), a key has an attribute record or none, \<^verbatim>\<open>rank\<close> yields a position or
  nothing, removal of a
  key takes it out of the queue and is harmless when the key is absent, and
  \<^verbatim>\<open>deleteAttributes\<close> drops the record. Saved documents are kept with the id the
  database gave them.
\<close>

record state =
  matching_queue :: "string list"
  hashes :: "string \<rightharpoonup> userData"
  matching_events :: "(string \<times> matchingEvent) list"
  rooms :: "(string \<times> room) list"
  match_events :: "(string \<times> matchMessage) list"
  emitted :: "(string option \<times> socket_event) list"
  console :: "log_line list"

text \<open>
  Modelled from the spec: the calls of the Redis client that the worker makes, on
  the state above. \<open>zRange\<close> lists the whole queue, \<open>zRank\<close> is the presence
  check, \<open>zRem\<close> and \<open>del\<close> remove a key from the queue
  and a record from the store, \<open>xAdd\<close> appends to the stream under the entry id it
  is given (the worker passes \<^verbatim>\<open>'*'\<close>, which lets the store choose the id).
\<close>

definition zRange :: "state \<Rightarrow> string list" where
  "zRange s = matching_queue s"

text \<open>
  The reply of \<^verbatim>\<open>hGetAll\<close> is a JavaScript value; \<open>None\<close> stands for a falsy one.
  The client whose calls the worker uses (\<^verbatim>\<open>zRange\<close>, \<^verbatim>\<open>hGetAll\<close>, \<^verbatim>\<open>zRank\<close>,
  \<^verbatim>\<open>xAdd\<close>: node-redis) answers with an object in every case: the fields of the
  hash, and for a key that has no hash the object without fields. It never answers
  with a falsy value.
\<close>

definition hGetAll :: "state \<Rightarrow> string \<Rightarrow> userData option" where
  "hGetAll s userKey =
     Some (case hashes s userKey of None \<Rightarrow> empty_object | Some ud \<Rightarrow> ud)"

fun rank_in :: "string list \<Rightarrow> string \<Rightarrow> nat option" where
  "rank_in [] userKey = None"
| "rank_in (k # ks) userKey =
     (if k = userKey then Some 0 else map_option Suc (rank_in ks userKey))"

definition zRank :: "state \<Rightarrow> string \<Rightarrow> nat option" where
  "zRank s userKey = rank_in (matching_queue s) userKey"

definition zRem :: "string \<Rightarrow> state \<Rightarrow> state" where
  "zRem userKey s = s\<lparr>matching_queue := removeAll userKey (matching_queue s)\<rparr>"

definition del :: "string \<Rightarrow> state \<Rightarrow> state" where
  "del userKey s = s\<lparr>hashes := (hashes s)(userKey := None)\<rparr>"

definition xAdd :: "string \<Rightarrow> matchMessage \<Rightarrow> state \<Rightarrow> state" where
  "xAdd entry_id m s = s\<lparr>match_events := match_events s @ [(entry_id, m)]\<rparr>"

definition console_print :: "log_line \<Rightarrow> state \<Rightarrow> state" where
  "console_print l s = s\<lparr>console := console s @ [l]\<rparr>"

text \<open>
  Modelled from the spec: everything the worker cannot decide itself. The clock is
  read once at the start of a tick, once for the user at outer index \<open>i\<close> and once
  for the user at inner index \<open>j\<close> of round \<open>i\<close>; the three readings may differ.
  \<open>sockets\<close> maps a socket id to the \<^verbatim>\<open>connected\<close> flag of the socket registered
  under it. A save yields the new document's id, or nothing when it rejects;
  \<open>xAdd_ok\<close> and \<open>queue_dump_ok\<close> say whether the stream append, resp. the
  diagnostic reads \<^verbatim>\<open>logAllQueues\<close> and \<^verbatim>\<open>xRange\<close> around the publication, go
  through. All of them may depend on the state they are asked in.
\<close>

record world =
  date_now_tick :: int
  date_now_outer :: "nat \<Rightarrow> int"
  date_now_inner :: "nat \<Rightarrow> nat \<Rightarrow> int"
  sockets :: "string \<rightharpoonup> bool"
  event_save :: "state \<Rightarrow> matchingEvent \<Rightarrow> string option"
  room_save :: "state \<Rightarrow> room \<Rightarrow> string option"
  xAdd_ok :: "state \<Rightarrow> matchMessage \<Rightarrow> bool"
  queue_dump_ok :: "state \<Rightarrow> bool"

text \<open>
  Modelled from the spec: \<^verbatim>\<open>io.sockets.sockets.get(socketId)\<close> on the registry of the
  world; an absent socket id finds no socket.
\<close>

definition sockets_get :: "world \<Rightarrow> string option \<Rightarrow> bool option" where
  "sockets_get w sid = (case sid of None \<Rightarrow> None | Some x \<Rightarrow> sockets w x)"

section \<open>Publishing a match\<close>

text \<open>
  \<^verbatim>\<open>a || b || 'Any'\<close> on two fields: an absent field and the empty string are both
  falsy.
\<close>

definition truthy :: "string option \<Rightarrow> bool" where
  "truthy a = (case a of None \<Rightarrow> False | Some x \<Rightarrow> x \<noteq> [])"

definition or_Any :: "string option \<Rightarrow> string option \<Rightarrow> string" where
  "or_Any a b = (if truthy a then the a else if truthy b then the b else ''Any'')"

definition createRoom ::
  "world \<Rightarrow> userData \<Rightarrow> userData \<Rightarrow> state \<Rightarrow> (error + string) \<times> state" where
  "createRoom w u1 u2 s =
     (let newRoom = \<lparr>participants = [userId u1, userId u2],
                     room_category = or_Any (category u1) (category u2),
                     room_difficulty = or_Any (difficulty u1) (difficulty u2)\<rparr>
      in case room_save w s newRoom of
           None \<Rightarrow> (Inl RoomSaveFailed, s)
         | Some rid \<Rightarrow> (Inr rid, s\<lparr>rooms := rooms s @ [(rid, newRoom)]\<rparr>))"

definition summary :: "userData \<Rightarrow> userSummary" where
  "summary u = \<lparr>summary_userId = userId u, summary_socketId = socketId u,
                summary_category = category u, summary_difficulty = difficulty u\<rparr>"

text \<open>
  The \<^verbatim>\<open>try\<close> block of \<^verbatim>\<open>handleMatch\<close>: it returns the error that left the block, if
  any, with the state reached by then.
\<close>

definition handleMatch_try ::
  "world \<Rightarrow> userData \<Rightarrow> userData \<Rightarrow> state \<Rightarrow> error option \<times> state" where
  "handleMatch_try w u1 u2 s =
     (if \<not> queue_dump_ok w s then (Some QueueDumpFailed, s)
      else
        (let matchingEvent = \<lparr>event_category = or_Any (category u1) (category u2),
                               event_difficulty = or_Any (difficulty u1) (difficulty u2)\<rparr>
         in case event_save w s matchingEvent of
              None \<Rightarrow> (Some EventSaveFailed, s)
            | Some savedEvent_id \<Rightarrow>
                (let s1 = s\<lparr>matching_events :=
                              matching_events s @ [(savedEvent_id, matchingEvent)]\<rparr>
                 in case createRoom w u1 u2 s1 of
                      (Inl e, s2) \<Rightarrow> (Some e, s2)
                    | (Inr roomId', s2) \<Rightarrow>
                        (let matchMessage = \<lparr>msg_user1 = summary u1, msg_user2 = summary u2,
                                              msg_roomId = roomId',
                                              msg_matchId = savedEvent_id\<rparr>
                         in if \<not> xAdd_ok w s2 matchMessage then (Some StreamAppendFailed, s2)
                            else
                              (let s3 = xAdd ''*'' matchMessage s2
                               in if \<not> queue_dump_ok w s3 then (Some QueueDumpFailed, s3)
                                  else (None, s3))))))"

definition handleMatch :: "world \<Rightarrow> userData \<Rightarrow> userData \<Rightarrow> state \<Rightarrow> state" where
  "handleMatch w u1 u2 s =
     (case handleMatch_try w u1 u2 s of
        (None, s') \<Rightarrow> s'
      | (Some e, s') \<Rightarrow> console_print (Error_in_handleMatch e) s')"

section \<open>Timeouts\<close>

definition timeout_message :: string where
  "timeout_message = ''Match timed out. Please try again.''"

definition emit :: "string option \<Rightarrow> socket_event \<Rightarrow> state \<Rightarrow> state" where
  "emit sid ev s = s\<lparr>emitted := emitted s @ [(sid, ev)]\<rparr>"

fun handleTimeouts ::
  "world \<Rightarrow> config \<Rightarrow> (string \<times> userData) list \<Rightarrow> int \<Rightarrow> state \<Rightarrow> state" where
  "handleTimeouts w cfg [] currentTime s = s"
| "handleTimeouts w cfg ((userKey, ud) # validUsers) currentTime s =
     (let elapsedTime = num_minus currentTime (requestedAt ud) in
      if num_ge elapsedTime (MATCH_TIMEOUT cfg) then
        (let socketId' = socketId ud; socket = sockets_get w socketId' in
         if socket = Some True then
           handleTimeouts w cfg validUsers currentTime
             (del userKey (zRem userKey (emit socketId' (MATCH_FAILED timeout_message) s)))
         else handleTimeouts w cfg validUsers currentTime s)
      else handleTimeouts w cfg validUsers currentTime s)"

section \<open>The sweep\<close>

text \<open>
  \<^verbatim>\<open>validUsers.sort\<close> with the comparator that subtracts the two parsed
  \<open>requestedAt\<close>. When every entry has a number there, the comparator is an order
  and the sort is the stable sort by that number (\<^verbatim>\<open>Array.prototype.sort\<close> is
  stable, as \<open>sort_key\<close> is). A difference with \<^verbatim>\<open>NaN\<close> is \<^verbatim>\<open>NaN\<close>, which the
  sort takes for 0: if the numbers that are there are all equal, every two entries
  compare as equal and the stable sort leaves the array as it is. Otherwise the
  comparator is not consistent and the language leaves the order to the engine:
  the engine's choice is the argument \<open>engine\<close>, which gives for an array the list
  of the old positions in the new order. The array is rearranged, never changed
  otherwise, so a list that is not a rearrangement of the positions is not
  followed.
\<close>

type_synonym engine = "(string \<times> userData) list \<Rightarrow> nat list"

definition permute :: "nat list \<Rightarrow> 'a list \<Rightarrow> 'a list" where
  "permute ps xs = (if sort ps = [0..<length xs] then map (\<lambda>p. xs ! p) ps else xs)"

definition array_sort :: "engine \<Rightarrow> (string \<times> userData) list \<Rightarrow> (string \<times> userData) list" where
  "array_sort engine validUsers =
     (let numbers = List.map_filter (\<lambda>u. requestedAt (snd u)) validUsers in
      if \<forall>u \<in> set validUsers. requestedAt (snd u) \<noteq> None then
        sort_key (\<lambda>u. the (requestedAt (snd u))) validUsers
      else if \<forall>x \<in> set numbers. \<forall>y \<in> set numbers. x = y then validUsers
      else permute (engine validUsers) validUsers)"

text \<open>
  The snapshot: every listed key is joined to the reply for it, the falsy replies
  are filtered out, and the rest is sorted.
\<close>

definition read_snapshot ::
  "engine \<Rightarrow> string list \<Rightarrow> (string \<Rightarrow> userData option) \<Rightarrow> (string \<times> userData) list" where
  "read_snapshot engine userKeys lookup =
     (let users = map (\<lambda>userKey. case lookup userKey of
                                   Some ud \<Rightarrow> Some (userKey, ud)
                                 | None \<Rightarrow> None) userKeys;
          validUsers = map the (filter (\<lambda>u. u \<noteq> None) users)
      in array_sort engine validUsers)"

text \<open>
  The body of the \<^verbatim>\<open>if\<close> that found a compatible pair, up to the \<^verbatim>\<open>break\<close>: both
  keys are added to \<open>matchedUsers\<close> and removed from the queue, the match is
  printed and handed to \<^verbatim>\<open>handleMatch\<close>.
\<close>

definition claim_pair ::
  "world \<Rightarrow> string \<Rightarrow> userData \<Rightarrow> string \<Rightarrow> userData \<Rightarrow> string set \<times> state \<Rightarrow>
   string set \<times> state" where
  "claim_pair w userKey1 userData1 userKey2 userData2 acc =
     (case acc of (matchedUsers, s) \<Rightarrow>
        (insert userKey2 (insert userKey1 matchedUsers),
         handleMatch w userData1 userData2
           (console_print (Match_created userKey1 userData1 userKey2 userData2)
              (zRem userKey2 (zRem userKey1 s)))))"

text \<open>
  The inner loop of round \<open>i\<close>, from index \<open>j\<close> on. It ends at the first match
  (the \<^verbatim>\<open>break\<close>) or at the end of the snapshot.
\<close>

function match_inner ::
  "world \<Rightarrow> config \<Rightarrow> (string \<times> userData) list \<Rightarrow> nat \<Rightarrow> string \<Rightarrow> userData \<Rightarrow> int \<Rightarrow>
   nat \<Rightarrow> string set \<times> state \<Rightarrow> string set \<times> state" where
  "match_inner w cfg validUsers i userKey1 userData1 relaxationLevel1 j (matchedUsers, s) =
     (if j < length validUsers then
        (let userKey2 = fst (validUsers ! j); userData2 = snd (validUsers ! j) in
         if userKey2 \<in> matchedUsers then
           match_inner w cfg validUsers i userKey1 userData1 relaxationLevel1 (j + 1)
             (matchedUsers, s)
         else if zRank s userKey2 = None then
           match_inner w cfg validUsers i userKey1 userData1 relaxationLevel1 (j + 1)
             (matchedUsers, s)
         else
           (let relaxationLevel2 = getRelaxationLevel cfg (date_now_inner w i j) userData2 in
            if canUsersMatch userData1 userData2 relaxationLevel1 relaxationLevel2 then
              claim_pair w userKey1 userData1 userKey2 userData2 (matchedUsers, s)
            else
              match_inner w cfg validUsers i userKey1 userData1 relaxationLevel1 (j + 1)
                (matchedUsers, s)))
      else (matchedUsers, s))"
  by pat_completeness auto
termination
  by (relation "measure (\<lambda>(w, cfg, validUsers, i, userKey1, userData1, relaxationLevel1,
        j, acc). length validUsers - j)") auto

function match_outer ::
  "world \<Rightarrow> config \<Rightarrow> (string \<times> userData) list \<Rightarrow> nat \<Rightarrow> string set \<times> state \<Rightarrow>
   string set \<times> state" where
  "match_outer w cfg validUsers i (matchedUsers, s) =
     (if i < length validUsers then
        (let userKey1 = fst (validUsers ! i); userData1 = snd (validUsers ! i) in
         if userKey1 \<in> matchedUsers then match_outer w cfg validUsers (i + 1) (matchedUsers, s)
         else if zRank s userKey1 = None then
           match_outer w cfg validUsers (i + 1) (matchedUsers, s)
         else
           (let relaxationLevel1 = getRelaxationLevel cfg (date_now_outer w i) userData1 in
            match_outer w cfg validUsers (i + 1)
              (match_inner w cfg validUsers i userKey1 userData1 relaxationLevel1 (i + 1)
                 (matchedUsers, s))))
      else (matchedUsers, s))"
  by pat_completeness auto
termination
  by (relation "measure (\<lambda>(w, cfg, validUsers, i, acc). length validUsers - i)") auto

text \<open>
  One tick of the interval timer. The calls of the store are total here, so the
  \<^verbatim>\<open>catch\<close> around the tick has nothing to catch; the printing attached with
  \<^verbatim>\<open>then\<close> to \<^verbatim>\<open>handleMatch\<close> changes nothing the worker reads and is left out.
\<close>

definition matchingWorker_tick :: "engine \<Rightarrow> world \<Rightarrow> config \<Rightarrow> state \<Rightarrow> state" where
  "matchingWorker_tick engine w cfg s =
     (let now = date_now_tick w;
          userKeys = zRange s;
          validUsers = read_snapshot engine userKeys (hGetAll s);
          scanned = match_outer w cfg validUsers 0 ({}, s)
      in handleTimeouts w cfg validUsers now (snd scanned))"

text \<open>The keys of the \<^verbatim>\<open>Match created between:\<close> lines, in the order printed.\<close>

fun claimed_keys :: "log_line list \<Rightarrow> string list" where
  "claimed_keys [] = []"
| "claimed_keys (Match_created k1 d1 k2 d2 # ls) = k1 # k2 # claimed_keys ls"
| "claimed_keys (Error_in_handleMatch e # ls) = claimed_keys ls"

section \<open>Predicates used in the statements\<close>

text \<open>
  The snapshot entries that the timeout pass acts on: those whose elapsed time has
  reached \<open>MATCH_TIMEOUT\<close> and whose socket is registered and connected.
\<close>

definition due_and_connected ::
  "world \<Rightarrow> config \<Rightarrow> int \<Rightarrow> (string \<times> userData) list \<Rightarrow> (string \<times> userData) list" where
  "due_and_connected w cfg currentTime validUsers =
     filter (\<lambda>u. num_ge (num_minus currentTime (requestedAt (snd u))) (MATCH_TIMEOUT cfg)
                 \<and> sockets_get w (socketId (snd u)) = Some True) validUsers"

text \<open>
  Entry \<open>j\<close> can be paired in round \<open>i\<close>: its key is not yet claimed, it is still
  in the queue, and \<^verbatim>\<open>canUsersMatch\<close> accepts it for the user of the round, with
  the entry's level taken at the clock reading of that step.
\<close>

definition candidate ::
  "world \<Rightarrow> config \<Rightarrow> (string \<times> userData) list \<Rightarrow> nat \<Rightarrow> userData \<Rightarrow> int \<Rightarrow>
   string set \<Rightarrow> state \<Rightarrow> nat \<Rightarrow> bool" where
  "candidate w cfg validUsers i userData1 relaxationLevel1 matchedUsers s j =
     (fst (validUsers ! j) \<notin> matchedUsers
      \<and> zRank s (fst (validUsers ! j)) \<noteq> None
      \<and> canUsersMatch userData1 (snd (validUsers ! j)) relaxationLevel1
          (getRelaxationLevel cfg (date_now_inner w i j) (snd (validUsers ! j))))"

section \<open>Example data\<close>

text \<open>Two users who agree on the category and differ in the difficulty.\<close>

definition user_X :: userData where
  "user_X = \<lparr>userId = Some ''x'', socketId = Some ''sx'', category = Some ''Math'',
     difficulty = Some ''Easy'', requestedAt = Some 0\<rparr>"

definition user_Y :: userData where
  "user_Y = \<lparr>userId = Some ''y'', socketId = Some ''sy'', category = Some ''Math'',
     difficulty = Some ''Hard'', requestedAt = Some 0\<rparr>"

text \<open>
  A third user, a world in which every clock reading is \<open>t\<close>, the sockets of the
  first two users are connected, the third user's socket is registered but
  disconnected and every save goes through, and the state that holds a given list
  of keys with their records and nothing else.
\<close>

definition user_Z :: userData where
  "user_Z = \<lparr>userId = Some ''z'', socketId = Some ''sz'', category = Some ''Math'',
     difficulty = Some ''Easy'', requestedAt = Some 0\<rparr>"

definition world_at :: "int \<Rightarrow> world" where
  "world_at t = \<lparr>date_now_tick = t, date_now_outer = (\<lambda>i. t), date_now_inner = (\<lambda>i j. t),
     sockets = [''sx'' \<mapsto> True, ''sy'' \<mapsto> True, ''sz'' \<mapsto> False],
     event_save = (\<lambda>s e. Some ''m1''), room_save = (\<lambda>s r. Some ''r1''),
     xAdd_ok = (\<lambda>s m. True), queue_dump_ok = (\<lambda>s. True)\<rparr>"

definition state_of :: "(string \<times> userData) list \<Rightarrow> state" where
  "state_of kvs = \<lparr>matching_queue = map fst kvs, hashes = map_of kvs, matching_events = [],
     rooms = [], match_events = [], emitted = [], console = []\<rparr>"

text \<open>
  A user with no category and an empty difficulty; two more users like the first
  two, enqueued a second later; the snapshot of the four; and a world in which
  saving a room always rejects.
\<close>

definition user_W :: userData where
  "user_W = \<lparr>userId = Some ''w'', socketId = Some ''sw'', category = None,
     difficulty = Some [], requestedAt = Some 0\<rparr>"

definition user_X2 :: userData where
  "user_X2 = \<lparr>userId = Some ''x2'', socketId = Some ''sx2'', category = Some ''Math'',
     difficulty = Some ''Easy'', requestedAt = Some 1000\<rparr>"

definition user_Y2 :: userData where
  "user_Y2 = \<lparr>userId = Some ''y2'', socketId = Some ''sy2'', category = Some ''Math'',
     difficulty = Some ''Hard'', requestedAt = Some 1000\<rparr>"

definition four_users :: "(string \<times> userData) list" where
  "four_users = [(''user:x'', user_X), (''user:y'', user_Y),
                 (''user:x2'', user_X2), (''user:y2'', user_Y2)]"

definition world_room_fails :: "int \<Rightarrow> world" where
  "world_room_fails t = (world_at t)\<lparr>room_save := (\<lambda>s r. None)\<rparr>"

text \<open>
  An engine that leaves an array with an inconsistent comparator in its order; a
  queue of two keys that have no record; and the four users queued in another order
  than they were enqueued.
\<close>

definition engine_keep :: engine where
  "engine_keep validUsers = [0..<length validUsers]"

definition state_gone :: state where
  "state_gone = \<lparr>matching_queue = [''user:gone'', ''user:lost''], hashes = Map.empty,
     matching_events = [], rooms = [], match_events = [], emitted = [], console = []\<rparr>"

definition state_unsorted :: state where
  "state_unsorted = state_of [(''user:x2'', user_X2), (''user:x'', user_X),
                              (''user:y2'', user_Y2), (''user:y'', user_Y)]"

section \<open>Facts about the two loops\<close>

declare match_inner.simps [simp del]
declare match_outer.simps [simp del]
declare sweep_user1.simps [simp del]
declare sweep_user2.simps [simp del]
declare sweep_user1_calls.simps [simp del]
declare sweep_user2_calls.simps [simp del]

lemma sweep_user1_eq:
  "sweep_user1 user1 user2 l i satisfied =
     (satisfied \<or> (\<exists>k. i \<le> k \<and> k \<le> l \<and> isCriteriaSatisfied user2 (getRelaxedCriteria k user1)))"
proof (induction user1 user2 l i satisfied rule: sweep_user1.induct)
  case (1 user1 user2 l i satisfied)
  show ?case
  proof (cases "i \<le> l")
    case False
    then show ?thesis by (subst sweep_user1.simps) auto
  next
    case True
    have split: "(\<exists>k. i \<le> k \<and> k \<le> l \<and> isCriteriaSatisfied user2 (getRelaxedCriteria k user1)) =
        (isCriteriaSatisfied user2 (getRelaxedCriteria i user1)
         \<or> (\<exists>k. i + 1 \<le> k \<and> k \<le> l \<and> isCriteriaSatisfied user2 (getRelaxedCriteria k user1)))"
      (is "?L = (?H \<or> ?R)")
    proof
      assume ?L
      then obtain k where k: "i \<le> k" "k \<le> l"
        "isCriteriaSatisfied user2 (getRelaxedCriteria k user1)" by blast
      show "?H \<or> ?R"
      proof (cases "k = i")
        case True
        with k show ?thesis by simp
      next
        case False
        with k have "i + 1 \<le> k" by simp
        with k show ?thesis by blast
      qed
    next
      assume "?H \<or> ?R"
      then show ?L
      proof
        assume ?H
        with True show ?L by blast
      next
        assume ?R
        then obtain k where "i + 1 \<le> k" "k \<le> l"
          "isCriteriaSatisfied user2 (getRelaxedCriteria k user1)" by blast
        then have "i \<le> k \<and> k \<le> l \<and> isCriteriaSatisfied user2 (getRelaxedCriteria k user1)"
          by simp
        then show ?L by blast
      qed
    qed
    have "sweep_user1 user1 user2 l i satisfied =
        sweep_user1 user1 user2 l (i + 1)
          (satisfied \<or> isCriteriaSatisfied user2 (getRelaxedCriteria i user1))"
      using True by (subst sweep_user1.simps) simp
    also have "\<dots> = ((satisfied \<or> isCriteriaSatisfied user2 (getRelaxedCriteria i user1))
        \<or> (\<exists>k. i + 1 \<le> k \<and> k \<le> l \<and> isCriteriaSatisfied user2 (getRelaxedCriteria k user1)))"
      using "1.IH" [OF True refl] .
    finally show ?thesis using split by blast
  qed
qed

lemma sweep_user2_eq:
  "sweep_user2 user1 user2 l i satisfied =
     (satisfied \<or> (i \<le> l \<and> isCriteriaSatisfied user1 (getRelaxedCriteria l user2)))"
proof (induction user1 user2 l i satisfied rule: sweep_user2.induct)
  case (1 user1 user2 l i satisfied)
  show ?case
  proof (cases "i \<le> l")
    case False
    then show ?thesis by (subst sweep_user2.simps) auto
  next
    case True
    have "sweep_user2 user1 user2 l i satisfied =
        sweep_user2 user1 user2 l (i + 1)
          (satisfied \<or> isCriteriaSatisfied user1 (getRelaxedCriteria l user2))"
      using True by (subst sweep_user2.simps) simp
    also have "\<dots> = ((satisfied \<or> isCriteriaSatisfied user1 (getRelaxedCriteria l user2))
        \<or> (i + 1 \<le> l \<and> isCriteriaSatisfied user1 (getRelaxedCriteria l user2)))"
      using "1.IH" [OF True refl] .
    finally show ?thesis using True by blast
  qed
qed

lemma canUsersMatch_eq:
  "canUsersMatch user1 user2 l1 l2 =
     (0 \<le> l1 \<and> l1 \<le> 2 \<and> 0 \<le> l2 \<and> l2 \<le> 2 \<and>
      ((\<exists>k. 0 \<le> k \<and> k \<le> l1 \<and> isCriteriaSatisfied user2 (getRelaxedCriteria k user1))
       \<or> isCriteriaSatisfied user1 (getRelaxedCriteria l2 user2)))"
  unfolding canUsersMatch_def Let_def sweep_user2_eq sweep_user1_eq by auto

lemma sweep_user1_calls_eq:
  "sweep_user1_calls user1 user2 l i (satisfied, calls) =
     (sweep_user1 user1 user2 l i satisfied, calls @ [i..l])"
proof (induction user1 user2 l i "(satisfied, calls)" arbitrary: satisfied calls
    rule: sweep_user1_calls.induct)
  case (1 user1 user2 l i satisfied calls)
  show ?case
  proof (cases "i \<le> l")
    case False
    then show ?thesis
      by (subst sweep_user1_calls.simps, subst sweep_user1.simps) simp
  next
    case True
    then have "[i..l] = i # [i + 1..l]" by (simp add: upto_rec1)
    with True "1.hyps" [OF True refl] show ?thesis
      by (subst sweep_user1_calls.simps, subst sweep_user1.simps) simp
  qed
qed

lemma sweep_user2_calls_eq:
  "sweep_user2_calls user1 user2 l i (satisfied, calls) =
     (sweep_user2 user1 user2 l i satisfied, calls @ replicate (nat (l + 1 - i)) l)"
proof (induction user1 user2 l i "(satisfied, calls)" arbitrary: satisfied calls
    rule: sweep_user2_calls.induct)
  case (1 user1 user2 l i satisfied calls)
  show ?case
  proof (cases "i \<le> l")
    case False
    then show ?thesis
      by (subst sweep_user2_calls.simps, subst sweep_user2.simps) simp
  next
    case True
    then have "nat (l + 1 - i) = Suc (nat (l + 1 - (i + 1)))" by simp
    then have "replicate (nat (l + 1 - i)) l = l # replicate (nat (l + 1 - (i + 1))) l"
      by (simp only: replicate_Suc)
    with True "1.hyps" [OF True refl] show ?thesis
      by (subst sweep_user2_calls.simps, subst sweep_user2.simps) simp
  qed
qed

lemmas example_defs = four_users_def state_of_def world_at_def world_room_fails_def
  engine_keep_def state_gone_def state_unsorted_def empty_object_def
  default_config_def user_X_def user_Y_def user_X2_def user_Y2_def user_Z_def user_W_def

lemmas model_defs = zRank_def zRem_def del_def xAdd_def console_print_def emit_def
  zRange_def hGetAll_def claim_pair_def handleMatch_def handleMatch_try_def createRoom_def
  summary_def or_Any_def truthy_def canUsersMatch_eq getRelaxationLevel_def
  num_minus_def num_le_def num_ge_def
  getRelaxedCriteria_def isCriteriaSatisfied_def sockets_get_def Let_def


section \<open>The relaxation policy and the compatibility predicate\<close>

text \<open>
  Claim C5. For a user with a timestamp the level is 0 exactly when the elapsed
  time is at most \<open>RELAXATION_INTERVAL\<close>, 1 exactly when it is above that and at most twice the
  interval, and 2 in every other case. An elapsed time equal to the interval gives
  level 0; one millisecond more gives level 1 for every interval of at least one
  millisecond. Level 0 leaves the user's own category and difficulty, level 1 keeps
  the category and makes the difficulty \<open>Any\<close>, level 2 makes the category \<open>Any\<close>
  and keeps the difficulty. Without a timestamp the elapsed time is \<^verbatim>\<open>NaN\<close>, no
  comparison holds and the level is 2, the level of every other case.
\<close>

theorem relaxation_policy_reference:
  "(requestedAt u = Some r \<longrightarrow>
      (getRelaxationLevel cfg now u = 0 \<longleftrightarrow> now - r \<le> RELAXATION_INTERVAL cfg) \<and>
      (getRelaxationLevel cfg now u = 1 \<longleftrightarrow>
         RELAXATION_INTERVAL cfg < now - r \<and> now - r \<le> 2 * RELAXATION_INTERVAL cfg) \<and>
      (getRelaxationLevel cfg now u = 2 \<longleftrightarrow>
         \<not> now - r \<le> RELAXATION_INTERVAL cfg \<and> \<not> now - r \<le> 2 * RELAXATION_INTERVAL cfg) \<and>
      (now - r = RELAXATION_INTERVAL cfg \<longrightarrow> getRelaxationLevel cfg now u = 0) \<and>
      (1 \<le> RELAXATION_INTERVAL cfg \<and> now - r = RELAXATION_INTERVAL cfg + 1
         \<longrightarrow> getRelaxationLevel cfg now u = 1)) \<and>
   (requestedAt u = None \<longrightarrow> getRelaxationLevel cfg now u = 2) \<and>
   getRelaxationLevel cfg now u \<in> {0, 1, 2} \<and>
   getRelaxedCriteria 0 u = \<lparr>crit_category = category u, crit_difficulty = difficulty u\<rparr> \<and>
   getRelaxedCriteria 1 u = \<lparr>crit_category = category u, crit_difficulty = Some ''Any''\<rparr> \<and>
   getRelaxedCriteria 2 u = \<lparr>crit_category = Some ''Any'', crit_difficulty = difficulty u\<rparr>"
  by (cases "requestedAt u")
    (simp_all add: getRelaxationLevel_def getRelaxedCriteria_def Let_def num_minus_def num_le_def)

text \<open>
  With the default interval of 10000 ms: level 0 at 10000 ms, level 1 at 10001 ms;
  level 2 for the object without fields.
\<close>

theorem relaxation_policy_reference_witness:
  "requestedAt user_X = Some 0
   \<and> 1 \<le> RELAXATION_INTERVAL default_config
   \<and> (10000::int) - 0 = RELAXATION_INTERVAL default_config
   \<and> (10001::int) - 0 = RELAXATION_INTERVAL default_config + 1
   \<and> getRelaxationLevel default_config 10000 user_X = 0
   \<and> getRelaxationLevel default_config 10001 user_X = 1
   \<and> requestedAt empty_object = None
   \<and> getRelaxationLevel default_config 10001 empty_object = 2"
  using relaxation_policy_reference [of user_X 0 default_config 10000]
    relaxation_policy_reference [of user_X 0 default_config 10001]
    relaxation_policy_reference [of empty_object 0 default_config 10001]
  by (simp add: default_config_def user_X_def empty_object_def)

text \<open>
  Claim C3. For levels in \<open>{0, 1, 2}\<close> the second loop of \<^verbatim>\<open>canUsersMatch\<close> adds to
  the result exactly the test of the first user against the second user's criteria
  relaxed to the second user's own level: the lower levels of the second user are
  not tried. The whole result is the first loop's result or that single test.
\<close>

theorem direction_B_only_at_level_B:
  assumes "l1 \<in> {0, 1, 2}" and "l2 \<in> {0, 1, 2}"
  shows "sweep_user2 u1 u2 l2 0 satisfied =
           (satisfied \<or> isCriteriaSatisfied u1 (getRelaxedCriteria l2 u2))
         \<and> canUsersMatch u1 u2 l1 l2 =
           (sweep_user1 u1 u2 l1 0 False \<or> isCriteriaSatisfied u1 (getRelaxedCriteria l2 u2))"
  using assms unfolding canUsersMatch_def Let_def sweep_user2_eq by auto

text \<open>
  The first user fits the second user's level 1 criteria but not the level 2 ones;
  with the second user at level 2 the pair is not matched.
\<close>

theorem direction_B_only_at_level_B_witness:
  "(0::int) \<in> {0, 1, 2} \<and> (2::int) \<in> {0, 1, 2}
   \<and> isCriteriaSatisfied user_X (getRelaxedCriteria 1 user_Y)
   \<and> \<not> isCriteriaSatisfied user_X (getRelaxedCriteria 2 user_Y)
   \<and> \<not> canUsersMatch user_X user_Y 0 2"
proof -
  have h0: "(0::int) \<in> {0, 1, 2}" and h2: "(2::int) \<in> {0, 1, 2}" by simp_all
  have s1: "\<not> sweep_user1 user_X user_Y 0 0 False"
    by (simp add: sweep_user1_eq isCriteriaSatisfied_def getRelaxedCriteria_def
        user_X_def user_Y_def)
  have b1: "isCriteriaSatisfied user_X (getRelaxedCriteria 1 user_Y)"
    by (simp add: isCriteriaSatisfied_def getRelaxedCriteria_def user_X_def user_Y_def)
  have b2: "\<not> isCriteriaSatisfied user_X (getRelaxedCriteria 2 user_Y)"
    by (simp add: isCriteriaSatisfied_def getRelaxedCriteria_def user_X_def user_Y_def)
  from direction_B_only_at_level_B [OF h0 h2, of user_X user_Y False] s1 b1 b2 h0 h2
  show ?thesis by simp
qed

text \<open>
  Claim C7. The direction from the first user to the second is the disjunction of
  the tests at the levels 0 up to the first user's level, so it stays satisfied
  when that level grows (up to 2), and with it the result of \<^verbatim>\<open>canUsersMatch\<close>.
\<close>

theorem direction_A_monotone:
  assumes "0 \<le> L" and "L \<le> L'" and "L' \<le> 2"
  shows "(sweep_user1 u1 u2 L 0 False \<longrightarrow> sweep_user1 u1 u2 L' 0 False)
         \<and> sweep_user1 u1 u2 L 0 False =
             (\<exists>i\<in>{0..L}. isCriteriaSatisfied u2 (getRelaxedCriteria i u1))
         \<and> (canUsersMatch u1 u2 L l2 \<longrightarrow> canUsersMatch u1 u2 L' l2)"
proof -
  have a: "sweep_user1 u1 u2 L 0 False \<longrightarrow> sweep_user1 u1 u2 L' 0 False"
    unfolding sweep_user1_eq using assms(2) by fastforce
  have b: "sweep_user1 u1 u2 L 0 False =
      (\<exists>i\<in>{0..L}. isCriteriaSatisfied u2 (getRelaxedCriteria i u1))"
    unfolding sweep_user1_eq by auto
  have c: "canUsersMatch u1 u2 L l2 \<longrightarrow> canUsersMatch u1 u2 L' l2"
    unfolding canUsersMatch_eq using assms by fastforce
  from a b c show ?thesis by blast
qed

text \<open>Not satisfied at level 0, satisfied at level 1, hence at level 2.\<close>

theorem direction_A_monotone_witness:
  "(0::int) \<le> 1 \<and> (1::int) \<le> 2 \<and> (2::int) \<le> 2
   \<and> \<not> sweep_user1 user_X user_Y 0 0 False
   \<and> sweep_user1 user_X user_Y 1 0 False
   \<and> sweep_user1 user_X user_Y 2 0 False
   \<and> canUsersMatch user_X user_Y 1 0 \<and> canUsersMatch user_X user_Y 2 0"
proof -
  have h: "(0::int) \<le> 1" "(1::int) \<le> 2" "(2::int) \<le> 2" by simp_all
  have s0: "\<not> sweep_user1 user_X user_Y 0 0 False"
    by (simp add: sweep_user1.simps isCriteriaSatisfied_def getRelaxedCriteria_def
        user_X_def user_Y_def)
  have s1: "sweep_user1 user_X user_Y 1 0 False"
    by (simp add: sweep_user1.simps isCriteriaSatisfied_def getRelaxedCriteria_def
        user_X_def user_Y_def)
  have c1: "canUsersMatch user_X user_Y 1 0"
    by (simp add: canUsersMatch_def sweep_user1.simps sweep_user2.simps
        isCriteriaSatisfied_def getRelaxedCriteria_def user_X_def user_Y_def)
  from direction_A_monotone [OF h, of user_X user_Y 0] s0 s1 c1 h
  show ?thesis by simp
qed

text \<open>
  Claim C10. \<^verbatim>\<open>getRelaxedCriteria\<close> answers for every integer level: outside
  \<open>{0, 1, 2}\<close> it returns the user's own category and difficulty, as level 0 does.
  \<^verbatim>\<open>canUsersMatch\<close> returns false when a level is below 0 or above 2, and every
  level it passes to \<^verbatim>\<open>getRelaxedCriteria\<close> is 0, 1 or 2: with a bad first level
  it makes no call at all, with a bad second level only the calls of the first loop.
\<close>

theorem getRelaxedCriteria_default_unreachable:
  "(l \<notin> {0, 1, 2} \<longrightarrow>
      getRelaxedCriteria l u = \<lparr>crit_category = category u, crit_difficulty = difficulty u\<rparr>
      \<and> getRelaxedCriteria l u = getRelaxedCriteria 0 u) \<and>
   (l1 < 0 \<or> l1 > 2 \<or> l2 < 0 \<or> l2 > 2 \<longrightarrow> \<not> canUsersMatch u1 u2 l1 l2) \<and>
   fst (canUsersMatch_calls u1 u2 l1 l2) = canUsersMatch u1 u2 l1 l2 \<and>
   (\<forall>k \<in> set (snd (canUsersMatch_calls u1 u2 l1 l2)). k \<in> {0, 1, 2}) \<and>
   (l1 < 0 \<or> l1 > 2 \<longrightarrow> snd (canUsersMatch_calls u1 u2 l1 l2) = []) \<and>
   (0 \<le> l1 \<and> l1 \<le> 2 \<and> (l2 < 0 \<or> l2 > 2) \<longrightarrow>
      snd (canUsersMatch_calls u1 u2 l1 l2) = [0..l1])"
proof -
  have a: "l \<notin> {0, 1, 2} \<longrightarrow>
      getRelaxedCriteria l u = \<lparr>crit_category = category u, crit_difficulty = difficulty u\<rparr>
      \<and> getRelaxedCriteria l u = getRelaxedCriteria 0 u"
    by (simp add: getRelaxedCriteria_def)
  have b: "l1 < 0 \<or> l1 > 2 \<or> l2 < 0 \<or> l2 > 2 \<longrightarrow> \<not> canUsersMatch u1 u2 l1 l2"
    by (auto simp: canUsersMatch_def Let_def)
  have c: "fst (canUsersMatch_calls u1 u2 l1 l2) = canUsersMatch u1 u2 l1 l2"
    by (simp add: canUsersMatch_calls_def canUsersMatch_def Let_def
        sweep_user1_calls_eq sweep_user2_calls_eq)
  have d: "\<forall>k \<in> set (snd (canUsersMatch_calls u1 u2 l1 l2)). k \<in> {0, 1, 2}"
  proof
    fix k assume "k \<in> set (snd (canUsersMatch_calls u1 u2 l1 l2))"
    then have "(0 \<le> l1 \<and> l1 \<le> 2 \<and> 0 \<le> k \<and> k \<le> l1)
        \<or> (0 \<le> l2 \<and> l2 \<le> 2 \<and> k = l2)"
      by (auto simp: canUsersMatch_calls_def Let_def sweep_user1_calls_eq
          sweep_user2_calls_eq split: if_splits)
    then show "k \<in> {0, 1, 2}" by auto
  qed
  have e: "l1 < 0 \<or> l1 > 2 \<longrightarrow> snd (canUsersMatch_calls u1 u2 l1 l2) = []"
    by (auto simp: canUsersMatch_calls_def)
  have f: "0 \<le> l1 \<and> l1 \<le> 2 \<and> (l2 < 0 \<or> l2 > 2) \<longrightarrow>
      snd (canUsersMatch_calls u1 u2 l1 l2) = [0..l1]"
    by (auto simp: canUsersMatch_calls_def Let_def sweep_user1_calls_eq)
  from a b c d e f show ?thesis by blast
qed

text \<open>Level 3 and level -1 are rejected; the calls made for levels 1 and 2.\<close>

theorem getRelaxedCriteria_default_unreachable_witness:
  "(3::int) \<notin> {0, 1, 2}
   \<and> getRelaxedCriteria 3 user_X = getRelaxedCriteria 0 user_X
   \<and> \<not> canUsersMatch user_X user_X 3 0
   \<and> \<not> canUsersMatch user_X user_X 0 (- 1)
   \<and> snd (canUsersMatch_calls user_X user_X 3 0) = []
   \<and> snd (canUsersMatch_calls user_X user_X 1 3) = [0, 1]
   \<and> snd (canUsersMatch_calls user_X user_Y 1 2) = [0, 1, 2, 2, 2]"
proof -
  have u: "[0..1::int] = [0, 1]" by (simp add: upto_rec1)
  have c: "snd (canUsersMatch_calls user_X user_Y 1 2) = [0, 1, 2, 2, 2]"
    by (simp add: canUsersMatch_calls_def Let_def sweep_user1_calls_eq
        sweep_user2_calls_eq upto_rec1 numeral_3_eq_3)
  from getRelaxedCriteria_default_unreachable [of 3 user_X 3 0 user_X user_X]
    getRelaxedCriteria_default_unreachable [of 3 user_X 0 "- 1" user_X user_X]
    getRelaxedCriteria_default_unreachable [of 3 user_X 1 3 user_X user_X] u c
  show ?thesis by simp
qed

section \<open>The timeout pass\<close>

lemma handleTimeouts_emitted:
  "emitted (handleTimeouts w cfg vs now s) =
     emitted s @ map (\<lambda>u. (socketId (snd u), MATCH_FAILED timeout_message))
                   (due_and_connected w cfg now vs)"
  by (induction vs arbitrary: s)
    (auto simp: due_and_connected_def Let_def del_def zRem_def emit_def)

lemma handleTimeouts_queue:
  "matching_queue (handleTimeouts w cfg vs now s) =
     filter (\<lambda>k. k \<notin> fst ` set (due_and_connected w cfg now vs)) (matching_queue s)"
proof (induction vs arbitrary: s)
  case Nil
  then show ?case by (simp add: due_and_connected_def)
next
  case (Cons u vs)
  obtain k ud where u: "u = (k, ud)" by (cases u)
  have rm: "\<And>P q. filter P (removeAll k q) = filter (\<lambda>x. x \<noteq> k \<and> P x) q"
    by (auto simp: removeAll_filter_not_eq intro: filter_cong)
  show ?case
    unfolding u
    by (simp add: Cons.IH due_and_connected_def Let_def del_def zRem_def emit_def rm)
qed

lemma handleTimeouts_hashes:
  "hashes (handleTimeouts w cfg vs now s) =
     (\<lambda>k. if k \<in> fst ` set (due_and_connected w cfg now vs) then None else hashes s k)"
proof (induction vs arbitrary: s)
  case Nil
  then show ?case by (simp add: due_and_connected_def)
next
  case (Cons u vs)
  obtain k ud where u: "u = (k, ud)" by (cases u)
  show ?case
    unfolding u
    by (auto simp: Cons.IH due_and_connected_def Let_def del_def zRem_def emit_def fun_eq_iff)
qed

lemma handleTimeouts_rest:
  "matching_events (handleTimeouts w cfg vs now s) = matching_events s
   \<and> rooms (handleTimeouts w cfg vs now s) = rooms s
   \<and> match_events (handleTimeouts w cfg vs now s) = match_events s
   \<and> console (handleTimeouts w cfg vs now s) = console s"
  by (induction vs arbitrary: s) (auto simp: Let_def del_def zRem_def emit_def)

text \<open>
  Claim C1, as the code has it. The timeout pass acts on exactly the snapshot
  entries that are due and whose socket is registered and connected: each of them
  gets one \<open>MATCH_FAILED\<close> notification, is removed from the queue and loses its
  attribute record. An entry that is due but whose socket is missing or
  disconnected is not notified and stays in the queue with its record: the removal
  is inside the test of the socket.
\<close>

theorem handleTimeouts_evicts_connected_only:
  "emitted (handleTimeouts w cfg vs now s) =
     emitted s @ map (\<lambda>u. (socketId (snd u), MATCH_FAILED timeout_message))
                   (due_and_connected w cfg now vs)
   \<and> matching_queue (handleTimeouts w cfg vs now s) =
     filter (\<lambda>k. k \<notin> fst ` set (due_and_connected w cfg now vs)) (matching_queue s)
   \<and> hashes (handleTimeouts w cfg vs now s) =
     (\<lambda>k. if k \<in> fst ` set (due_and_connected w cfg now vs) then None else hashes s k)"
  using handleTimeouts_emitted handleTimeouts_queue handleTimeouts_hashes by blast

text \<open>
  A user whose wait has reached the timeout and whose socket is connected is
  notified once and evicted.
\<close>

theorem handleTimeouts_evicts_connected_only_witness:
  "requestedAt user_X = Some 0 \<and> (30000::int) - 0 \<ge> MATCH_TIMEOUT default_config
   \<and> sockets_get (world_at 30000) (socketId user_X) = Some True
   \<and> emitted (handleTimeouts (world_at 30000) default_config [(''user:x'', user_X)] 30000
        (state_of [(''user:x'', user_X)])) = [(Some ''sx'', MATCH_FAILED timeout_message)]
   \<and> matching_queue (handleTimeouts (world_at 30000) default_config [(''user:x'', user_X)] 30000
        (state_of [(''user:x'', user_X)])) = []
   \<and> hashes (handleTimeouts (world_at 30000) default_config [(''user:x'', user_X)] 30000
        (state_of [(''user:x'', user_X)])) ''user:x'' = None"
  using handleTimeouts_evicts_connected_only [of "world_at 30000" default_config
      "[(''user:x'', user_X)]" 30000 "state_of [(''user:x'', user_X)]"]
  by (simp add: due_and_connected_def example_defs sockets_get_def num_ge_def num_minus_def)

text \<open>
  A user whose wait has reached the timeout and whose socket is disconnected: after
  the tick the key is still queued, the record is still stored and nothing was sent.
\<close>

lemma tick_Z:
  "matchingWorker_tick engine_keep (world_at 30000) default_config
     (state_of [(''user:z'', user_Z)]) =
   handleTimeouts (world_at 30000) default_config [(''user:z'', user_Z)] 30000
     (state_of [(''user:z'', user_Z)])"
  by (simp add: matchingWorker_tick_def read_snapshot_def array_sort_def zRange_def hGetAll_def
      state_of_def world_at_def user_Z_def match_outer.simps match_inner.simps zRank_def Let_def
      getRelaxationLevel_def num_minus_def num_le_def)

theorem timeout_stale_socket_counterexample:
  "requestedAt user_Z = Some 0 \<and> (30000::int) - 0 \<ge> MATCH_TIMEOUT default_config
   \<and> ''user:z'' \<in> set (matching_queue (state_of [(''user:z'', user_Z)]))
   \<and> sockets_get (world_at 30000) (socketId user_Z) = Some False
   \<and> ''user:z'' \<in> set (matching_queue
        (matchingWorker_tick engine_keep (world_at 30000) default_config
           (state_of [(''user:z'', user_Z)])))
   \<and> hashes (matchingWorker_tick engine_keep (world_at 30000) default_config
        (state_of [(''user:z'', user_Z)])) ''user:z'' = Some user_Z
   \<and> emitted (matchingWorker_tick engine_keep (world_at 30000) default_config
        (state_of [(''user:z'', user_Z)])) = []"
  unfolding tick_Z
  by (simp add: state_of_def world_at_def default_config_def user_Z_def sockets_get_def Let_def
      num_ge_def num_minus_def)

section \<open>The snapshot\<close>

lemma snapshot_unsorted:
  "map the (filter (\<lambda>u. u \<noteq> None)
      (map (\<lambda>userKey. case lookup userKey of Some ud \<Rightarrow> Some (userKey, ud) | None \<Rightarrow> None) ks))
   = map (\<lambda>k. (k, the (lookup k))) (filter (\<lambda>k. lookup k \<noteq> None) ks)"
  by (induction ks) (auto split: option.splits)

lemma read_snapshot_eq:
  "read_snapshot engine ks lookup =
     array_sort engine (map (\<lambda>k. (k, the (lookup k))) (filter (\<lambda>k. lookup k \<noteq> None) ks))"
  unfolding read_snapshot_def Let_def snapshot_unsorted ..

lemma permute_mset: "mset (permute ps xs) = mset xs"
proof (cases "sort ps = [0..<length xs]")
  case False
  then show ?thesis by (simp add: permute_def)
next
  case True
  have "mset ps = mset (sort ps)" by simp
  with True have "mset ps = mset [0..<length xs]" by simp
  then have "image_mset (\<lambda>p. xs ! p) (mset ps) = image_mset (\<lambda>p. xs ! p) (mset [0..<length xs])"
    by simp
  then have "mset (map (\<lambda>p. xs ! p) ps) = mset (map (\<lambda>p. xs ! p) [0..<length xs])"
    by simp
  also have "map (\<lambda>p. xs ! p) [0..<length xs] = xs" by (rule map_nth)
  finally show ?thesis using True by (simp add: permute_def)
qed

lemma array_sort_mset: "mset (array_sort engine xs) = mset xs"
  by (simp add: array_sort_def Let_def permute_mset)

lemma array_sort_mset_map: "mset (map g (array_sort engine xs)) = mset (map g xs)"
  by (simp add: array_sort_mset)


lemma snapshot_of_state:
  "read_snapshot engine (zRange s) (hGetAll s) =
     array_sort engine
       (map (\<lambda>k. (k, case hashes s k of None \<Rightarrow> empty_object | Some ud \<Rightarrow> ud))
          (matching_queue s))"
  unfolding read_snapshot_eq by (simp add: zRange_def hGetAll_def)

lemma read_snapshot_mset:
  "mset (map fst (read_snapshot engine ks lookup)) = mset (filter (\<lambda>k. lookup k \<noteq> None) ks)"
proof -
  let ?xs = "map (\<lambda>k. (k, the (lookup k))) (filter (\<lambda>k. lookup k \<noteq> None) ks)"
  have m: "map fst ?xs = filter (\<lambda>k. lookup k \<noteq> None) ks"
    by (simp add: comp_def)
  have "mset (map fst (array_sort engine ?xs)) = mset (map fst ?xs)"
    by (rule array_sort_mset_map)
  then show ?thesis unfolding read_snapshot_eq m .
qed

lemma read_snapshot_distinct:
  "distinct ks \<Longrightarrow> distinct (map fst (read_snapshot engine ks lookup))"
proof -
  assume "distinct ks"
  then have "distinct (filter (\<lambda>k. lookup k \<noteq> None) ks)" by simp
  then show ?thesis
    using read_snapshot_mset [of engine ks lookup] by (metis mset_eq_imp_distinct_iff)
qed

lemma tick_on_snapshot:
  "matchingWorker_tick engine w cfg s =
     handleTimeouts w cfg (read_snapshot engine (zRange s) (hGetAll s)) (date_now_tick w)
       (snd (match_outer w cfg (read_snapshot engine (zRange s) (hGetAll s)) 0 ({}, s)))"
  by (simp add: matchingWorker_tick_def Let_def)

text \<open>
  Claim C2, where the code goes another way than its filter intends. The worker
  tests the reply of \<^verbatim>\<open>hGetAll\<close> for truthiness and filters the \<^verbatim>\<open>null\<close> entries
  out, but the reply for a key without a record is the object without fields, which
  is truthy: the snapshot holds every listed key, as often as it is listed, and a
  key without a record is in it with the object without fields.
\<close>

theorem snapshot_keeps_recordless_keys:
  "mset (read_snapshot engine (zRange s) (hGetAll s)) =
     mset (map (\<lambda>userKey. (userKey, case hashes s userKey of
                                        None \<Rightarrow> empty_object | Some ud \<Rightarrow> ud))
             (matching_queue s))
   \<and> (\<forall>userKey \<in> set (matching_queue s).
         hashes s userKey = None \<longrightarrow>
           (userKey, empty_object) \<in> set (read_snapshot engine (zRange s) (hGetAll s)))"
proof -
  let ?join = "\<lambda>k. (k, case hashes s k of None \<Rightarrow> empty_object | Some ud \<Rightarrow> ud)"
  have m: "mset (read_snapshot engine (zRange s) (hGetAll s)) =
      mset (map ?join (matching_queue s))"
    unfolding snapshot_of_state by (rule array_sort_mset)
  have "\<forall>userKey \<in> set (matching_queue s).
         hashes s userKey = None \<longrightarrow>
           (userKey, empty_object) \<in> set (read_snapshot engine (zRange s) (hGetAll s))"
  proof (intro ballI impI)
    fix k assume k: "k \<in> set (matching_queue s)" and h: "hashes s k = None"
    from k have "?join k \<in> set (map ?join (matching_queue s))" by simp
    with h have "(k, empty_object) \<in># mset (map ?join (matching_queue s))" by simp
    with m show "(k, empty_object) \<in> set (read_snapshot engine (zRange s) (hGetAll s))"
      by (metis set_mset_mset)
  qed
  with m show ?thesis by blast
qed

text \<open>
  Two queued keys without a record: both are in the snapshot, and the tick pairs
  them with each other and publishes the pair.
\<close>

lemma gone_snapshot:
  "read_snapshot engine_keep (zRange state_gone) (hGetAll state_gone) =
     [(''user:gone'', empty_object), (''user:lost'', empty_object)]"
  unfolding snapshot_of_state
  by (simp add: array_sort_def Let_def state_gone_def empty_object_def)

lemma gone_tick:
  "claimed_keys (console (matchingWorker_tick engine_keep (world_at 2000) default_config
     state_gone)) = [''user:gone'', ''user:lost'']
   \<and> matching_queue (matchingWorker_tick engine_keep (world_at 2000) default_config
     state_gone) = []
   \<and> map (msg_matchId \<circ> snd) (match_events (matchingWorker_tick engine_keep (world_at 2000)
     default_config state_gone)) = [''m1'']"
  unfolding tick_on_snapshot gone_snapshot
  by (simp add: match_outer.simps match_inner.simps example_defs model_defs insert_commute)

theorem snapshot_keeps_recordless_keys_witness:
  "''user:gone'' \<in> set (matching_queue state_gone)
   \<and> hashes state_gone ''user:gone'' = None
   \<and> (''user:gone'', empty_object)
       \<in> set (read_snapshot engine_keep (zRange state_gone) (hGetAll state_gone))
   \<and> read_snapshot engine_keep (zRange state_gone) (hGetAll state_gone) =
       [(''user:gone'', empty_object), (''user:lost'', empty_object)]
   \<and> claimed_keys (console (matchingWorker_tick engine_keep (world_at 2000) default_config
       state_gone)) = [''user:gone'', ''user:lost'']"
proof -
  have a: "''user:gone'' \<in> set (matching_queue state_gone)"
    and b: "hashes state_gone ''user:gone'' = None"
    by (simp_all add: state_gone_def)
  from snapshot_keeps_recordless_keys [of engine_keep state_gone, THEN conjunct2] a b
  have "(''user:gone'', empty_object)
       \<in> set (read_snapshot engine_keep (zRange state_gone) (hGetAll state_gone))"
    by blast
  with a b gone_snapshot gone_tick show ?thesis by simp
qed

section \<open>The publisher\<close>

lemma handleMatch_try_keeps:
  "matching_queue (snd (handleMatch_try w u1 u2 s)) = matching_queue s
   \<and> hashes (snd (handleMatch_try w u1 u2 s)) = hashes s
   \<and> emitted (snd (handleMatch_try w u1 u2 s)) = emitted s
   \<and> console (snd (handleMatch_try w u1 u2 s)) = console s"
  by (simp add: handleMatch_try_def createRoom_def xAdd_def Let_def split: option.splits)

lemma handleMatch_keeps:
  "matching_queue (handleMatch w u1 u2 s) = matching_queue s
   \<and> hashes (handleMatch w u1 u2 s) = hashes s
   \<and> emitted (handleMatch w u1 u2 s) = emitted s"
proof (cases "handleMatch_try w u1 u2 s")
  case (Pair r s')
  with handleMatch_try_keeps [of w u1 u2 s] show ?thesis
    by (cases r) (simp_all add: handleMatch_def console_print_def)
qed

lemma handleMatch_console:
  "console (handleMatch w u1 u2 s) =
     console s @ (case fst (handleMatch_try w u1 u2 s) of
                    None \<Rightarrow> [] | Some e \<Rightarrow> [Error_in_handleMatch e])"
proof (cases "handleMatch_try w u1 u2 s")
  case (Pair r s')
  with handleMatch_try_keeps [of w u1 u2 s] show ?thesis
    by (cases r) (simp_all add: handleMatch_def console_print_def)
qed

text \<open>
  Claim C9. When the saves and the stream append go through, \<^verbatim>\<open>handleMatch\<close> saves
  a match record whose category and difficulty are the first user's value if that
  is present and non-empty, else the second user's if that is, else \<open>Any\<close>; it
  saves a room with the two user ids and the same category and difficulty; and it
  appends to the stream (with a store-chosen entry id) a message that carries the
  saved record's id as \<open>matchId\<close>,
  the saved room's id as \<open>roomId\<close>, and for each user the user id, socket id,
  category and difficulty.
\<close>

theorem handleMatch_publishes:
  assumes ev: "ev = \<lparr>event_category = or_Any (category u1) (category u2),
                     event_difficulty = or_Any (difficulty u1) (difficulty u2)\<rparr>"
    and rm: "rm = \<lparr>participants = [userId u1, userId u2],
                   room_category = or_Any (category u1) (category u2),
                   room_difficulty = or_Any (difficulty u1) (difficulty u2)\<rparr>"
    and msg: "msg = \<lparr>msg_user1 = \<lparr>summary_userId = userId u1, summary_socketId = socketId u1,
                                  summary_category = category u1,
                                  summary_difficulty = difficulty u1\<rparr>,
                     msg_user2 = \<lparr>summary_userId = userId u2, summary_socketId = socketId u2,
                                  summary_category = category u2,
                                  summary_difficulty = difficulty u2\<rparr>,
                     msg_roomId = rid, msg_matchId = mid\<rparr>"
    and dump: "queue_dump_ok w s"
    and saved: "event_save w s ev = Some mid"
    and room: "room_save w (s\<lparr>matching_events := matching_events s @ [(mid, ev)]\<rparr>) rm
                 = Some rid"
    and added: "xAdd_ok w (s\<lparr>matching_events := matching_events s @ [(mid, ev)],
                              rooms := rooms s @ [(rid, rm)]\<rparr>) msg"
  shows "matching_events (handleMatch w u1 u2 s) = matching_events s @ [(mid, ev)]
         \<and> rooms (handleMatch w u1 u2 s) = rooms s @ [(rid, rm)]
         \<and> match_events (handleMatch w u1 u2 s) = match_events s @ [(''*'', msg)]
         \<and> (\<forall>a b x. a = Some x \<and> x \<noteq> [] \<longrightarrow> or_Any a b = x)
         \<and> (\<forall>a b y. a \<in> {None, Some []} \<and> b = Some y \<and> y \<noteq> [] \<longrightarrow> or_Any a b = y)
         \<and> (\<forall>a b. a \<in> {None, Some []} \<and> b \<in> {None, Some []} \<longrightarrow> or_Any a b = ''Any'')"
proof -
  have t: "snd (handleMatch_try w u1 u2 s) =
      s\<lparr>matching_events := matching_events s @ [(mid, ev)],
        rooms := rooms s @ [(rid, rm)], match_events := match_events s @ [(''*'', msg)]\<rparr>"
    using dump saved room added
    unfolding handleMatch_try_def createRoom_def xAdd_def summary_def Let_def
      ev [symmetric] rm [symmetric]
    by (simp add: msg)
  have h: "matching_events (handleMatch w u1 u2 s) = matching_events (snd (handleMatch_try w u1 u2 s))
      \<and> rooms (handleMatch w u1 u2 s) = rooms (snd (handleMatch_try w u1 u2 s))
      \<and> match_events (handleMatch w u1 u2 s) = match_events (snd (handleMatch_try w u1 u2 s))"
    by (cases "handleMatch_try w u1 u2 s")
      (auto simp: handleMatch_def console_print_def split: option.splits)
  have o: "(\<forall>a b x. a = Some x \<and> x \<noteq> [] \<longrightarrow> or_Any a b = x)
         \<and> (\<forall>a b y. a \<in> {None, Some []} \<and> b = Some y \<and> y \<noteq> [] \<longrightarrow> or_Any a b = y)
         \<and> (\<forall>a b. a \<in> {None, Some []} \<and> b \<in> {None, Some []} \<longrightarrow> or_Any a b = ''Any'')"
    by (auto simp: or_Any_def truthy_def)
  from h o show ?thesis unfolding t by simp
qed

text \<open>
  The first user has no category and an empty difficulty, so both are taken from
  the second user.
\<close>

theorem handleMatch_publishes_witness:
  "queue_dump_ok (world_at 2000) (state_of [])
   \<and> event_save (world_at 2000) (state_of [])
       \<lparr>event_category = ''Math'', event_difficulty = ''Hard''\<rparr> = Some ''m1''
   \<and> or_Any (category user_W) (category user_Y) = ''Math''
   \<and> or_Any (difficulty user_W) (difficulty user_Y) = ''Hard''
   \<and> or_Any (category user_W) (difficulty user_W) = ''Any''
   \<and> matching_events (handleMatch (world_at 2000) user_W user_Y (state_of [])) =
       [(''m1'', \<lparr>event_category = ''Math'', event_difficulty = ''Hard''\<rparr>)]
   \<and> rooms (handleMatch (world_at 2000) user_W user_Y (state_of [])) =
       [(''r1'', \<lparr>participants = [Some ''w'', Some ''y''], room_category = ''Math'',
                   room_difficulty = ''Hard''\<rparr>)]
   \<and> match_events (handleMatch (world_at 2000) user_W user_Y (state_of [])) =
       [(''*'',
         \<lparr>msg_user1 = \<lparr>summary_userId = Some ''w'', summary_socketId = Some ''sw'',
                       summary_category = None, summary_difficulty = Some []\<rparr>,
          msg_user2 = \<lparr>summary_userId = Some ''y'', summary_socketId = Some ''sy'',
                       summary_category = Some ''Math'', summary_difficulty = Some ''Hard''\<rparr>,
          msg_roomId = ''r1'', msg_matchId = ''m1''\<rparr>)]"
proof -
  have o: "or_Any (category user_W) (category user_Y) = ''Math''"
    "or_Any (difficulty user_W) (difficulty user_Y) = ''Hard''"
    "or_Any (category user_W) (difficulty user_W) = ''Any''"
    by (simp_all add: or_Any_def truthy_def user_W_def user_Y_def)
  have d: "queue_dump_ok (world_at 2000) (state_of [])" by (simp add: world_at_def)
  have s: "event_save (world_at 2000) (state_of [])
       \<lparr>event_category = or_Any (category user_W) (category user_Y),
        event_difficulty = or_Any (difficulty user_W) (difficulty user_Y)\<rparr> = Some ''m1''"
    by (simp add: world_at_def)
  have r: "room_save (world_at 2000) st rm = Some ''r1''" for st rm
    by (simp add: world_at_def)
  have a: "xAdd_ok (world_at 2000) st msg" for st msg
    by (simp add: world_at_def)
  from handleMatch_publishes [OF refl refl refl d s r a] o d s
  show ?thesis by (simp add: user_W_def user_Y_def state_of_def)
qed

section \<open>The pairing scan\<close>

lemma match_inner_step:
  "match_inner w cfg vs i k1 d1 l1 j (m, s) =
     (if j < length vs then
        (if candidate w cfg vs i d1 l1 m s j
         then claim_pair w k1 d1 (fst (vs ! j)) (snd (vs ! j)) (m, s)
         else match_inner w cfg vs i k1 d1 l1 (j + 1) (m, s))
      else (m, s))"
  by (subst match_inner.simps) (auto simp: candidate_def Let_def)

lemma match_outer_step:
  "match_outer w cfg vs i (m, s) =
     (if i < length vs then
        (if fst (vs ! i) \<in> m \<or> zRank s (fst (vs ! i)) = None
         then match_outer w cfg vs (i + 1) (m, s)
         else match_outer w cfg vs (i + 1)
                (match_inner w cfg vs i (fst (vs ! i)) (snd (vs ! i))
                   (getRelaxationLevel cfg (date_now_outer w i) (snd (vs ! i))) (i + 1) (m, s)))
      else (m, s))"
  by (subst match_outer.simps) (auto simp: Let_def)

lemma match_outer_end:
  "\<not> i < length vs \<Longrightarrow> match_outer w cfg vs i (m, s) = (m, s)"
  by (subst match_outer_step) simp

lemma match_outer_skip:
  "i < length vs \<Longrightarrow> fst (vs ! i) \<in> m \<or> zRank s (fst (vs ! i)) = None \<Longrightarrow>
   match_outer w cfg vs i (m, s) = match_outer w cfg vs (i + 1) (m, s)"
  by (subst match_outer_step) auto

lemma match_outer_round:
  "i < length vs \<Longrightarrow> fst (vs ! i) \<notin> m \<Longrightarrow> zRank s (fst (vs ! i)) \<noteq> None \<Longrightarrow>
   match_outer w cfg vs i (m, s) =
     match_outer w cfg vs (i + 1)
       (match_inner w cfg vs i (fst (vs ! i)) (snd (vs ! i))
          (getRelaxationLevel cfg (date_now_outer w i) (snd (vs ! i))) (i + 1) (m, s))"
  by (subst match_outer_step) auto

lemma match_inner_none:
  "\<forall>k. j0 \<le> k \<and> k < length vs \<longrightarrow> \<not> candidate w cfg vs i d1 l1 m s k \<Longrightarrow>
   match_inner w cfg vs i k1 d1 l1 j0 (m, s) = (m, s)"
proof (induction "length vs - j0" arbitrary: j0)
  case 0
  then show ?case by (subst match_inner_step) simp
next
  case (Suc n)
  from Suc.hyps(2) have lt: "j0 < length vs" by simp
  from Suc.prems lt have nc: "\<not> candidate w cfg vs i d1 l1 m s j0" by simp
  from Suc.hyps(2) have n: "n = length vs - (j0 + 1)" by simp
  from Suc.prems have "\<forall>k. j0 + 1 \<le> k \<and> k < length vs \<longrightarrow> \<not> candidate w cfg vs i d1 l1 m s k"
    by simp
  from Suc.hyps(1) [OF n this] lt nc show ?case
    by (subst match_inner_step) simp
qed

lemma match_inner_first:
  assumes "j0 \<le> j" and "j < length vs" and "candidate w cfg vs i d1 l1 m s j"
    and "\<forall>k. j0 \<le> k \<and> k < j \<longrightarrow> \<not> candidate w cfg vs i d1 l1 m s k"
  shows "match_inner w cfg vs i k1 d1 l1 j0 (m, s) =
           claim_pair w k1 d1 (fst (vs ! j)) (snd (vs ! j)) (m, s)"
  using assms
proof (induction "j - j0" arbitrary: j0)
  case 0
  then have "j0 = j" by simp
  with 0 show ?case by (subst match_inner_step) simp
next
  case (Suc n)
  from Suc.hyps(2) have lt: "j0 < j" by simp
  with Suc.prems have nc: "\<not> candidate w cfg vs i d1 l1 m s j0" by simp
  from lt Suc.prems(2) have l: "j0 < length vs" by simp
  from Suc.hyps(2) have n: "n = j - (j0 + 1)" by simp
  from lt have le: "j0 + 1 \<le> j" by simp
  from Suc.prems(4) have "\<forall>k. j0 + 1 \<le> k \<and> k < j \<longrightarrow> \<not> candidate w cfg vs i d1 l1 m s k"
    by simp
  from Suc.hyps(1) [OF n le Suc.prems(2) Suc.prems(3) this] nc l show ?case
    by (subst match_inner_step) simp
qed

lemma match_inner_cases:
  "(\<exists>j. j0 \<le> j \<and> j < length vs \<and> candidate w cfg vs i d1 l1 m s j
        \<and> (\<forall>k. j0 \<le> k \<and> k < j \<longrightarrow> \<not> candidate w cfg vs i d1 l1 m s k)
        \<and> match_inner w cfg vs i k1 d1 l1 j0 (m, s) =
            claim_pair w k1 d1 (fst (vs ! j)) (snd (vs ! j)) (m, s))
   \<or> ((\<forall>k. j0 \<le> k \<and> k < length vs \<longrightarrow> \<not> candidate w cfg vs i d1 l1 m s k)
       \<and> match_inner w cfg vs i k1 d1 l1 j0 (m, s) = (m, s))"
proof (cases "\<exists>j. j0 \<le> j \<and> j < length vs \<and> candidate w cfg vs i d1 l1 m s j")
  case False
  then have n: "\<forall>k. j0 \<le> k \<and> k < length vs \<longrightarrow> \<not> candidate w cfg vs i d1 l1 m s k"
    by blast
  from match_inner_none [OF n] n show ?thesis by blast
next
  case True
  define P where "P j \<longleftrightarrow> j0 \<le> j \<and> j < length vs \<and> candidate w cfg vs i d1 l1 m s j" for j
  define j where "j = (LEAST j. P j)"
  from True have ex: "\<exists>j. P j" by (simp add: P_def)
  then have Pj: "P j" unfolding j_def by (rule LeastI_ex)
  have least: "\<And>k. k < j \<Longrightarrow> \<not> P k" unfolding j_def by (rule not_less_Least)
  from Pj have a: "j0 \<le> j" "j < length vs" "candidate w cfg vs i d1 l1 m s j"
    by (simp_all add: P_def)
  have b: "\<forall>k. j0 \<le> k \<and> k < j \<longrightarrow> \<not> candidate w cfg vs i d1 l1 m s k"
  proof (intro allI impI)
    fix k assume k: "j0 \<le> k \<and> k < j"
    with least [of k] a(2) show "\<not> candidate w cfg vs i d1 l1 m s k"
      by (simp add: P_def)
  qed
  from match_inner_first [OF a b] a b show ?thesis by blast
qed

lemma claimed_keys_append: "claimed_keys (a @ b) = claimed_keys a @ claimed_keys b"
  by (induction a rule: claimed_keys.induct) simp_all

lemma claim_pair_fst:
  "fst (claim_pair w k1 d1 k2 d2 (m, s)) = insert k2 (insert k1 m)"
  by (simp add: claim_pair_def)

lemma claim_pair_queue:
  "matching_queue (snd (claim_pair w k1 d1 k2 d2 (m, s))) =
     removeAll k2 (removeAll k1 (matching_queue s))"
  by (simp add: claim_pair_def handleMatch_keeps console_print_def zRem_def)

lemma claim_pair_keeps:
  "hashes (snd (claim_pair w k1 d1 k2 d2 (m, s))) = hashes s
   \<and> emitted (snd (claim_pair w k1 d1 k2 d2 (m, s))) = emitted s"
  by (simp add: claim_pair_def handleMatch_keeps console_print_def zRem_def)

lemma claim_pair_console:
  "\<exists>new. console (snd (claim_pair w k1 d1 k2 d2 (m, s))) = console s @ new
         \<and> claimed_keys new = [k1, k2]"
proof -
  let ?s1 = "console_print (Match_created k1 d1 k2 d2) (zRem k2 (zRem k1 s))"
  let ?tail = "case fst (handleMatch_try w d1 d2 ?s1) of
                 None \<Rightarrow> [] | Some e \<Rightarrow> [Error_in_handleMatch e]"
  have "console (snd (claim_pair w k1 d1 k2 d2 (m, s))) =
      console s @ (Match_created k1 d1 k2 d2 # ?tail)"
    by (simp add: claim_pair_def handleMatch_console console_print_def zRem_def)
  moreover have "claimed_keys (Match_created k1 d1 k2 d2 # ?tail) = [k1, k2]"
    by (simp split: option.splits)
  ultimately show ?thesis by blast
qed

lemma match_inner_claims:
  assumes k1: "k1 \<notin> m"
    and later: "\<forall>j. j0 \<le> j \<and> j < length vs \<longrightarrow> fst (vs ! j) \<noteq> k1"
  shows "\<exists>new. console (snd (match_inner w cfg vs i k1 d1 l1 j0 (m, s))) = console s @ new
           \<and> fst (match_inner w cfg vs i k1 d1 l1 j0 (m, s)) = m \<union> set (claimed_keys new)
           \<and> distinct (claimed_keys new) \<and> set (claimed_keys new) \<inter> m = {}"
  using match_inner_cases [of j0 vs w cfg i d1 l1 m s k1]
proof (elim disjE exE conjE)
  fix j
  assume j: "j0 \<le> j" "j < length vs" and c: "candidate w cfg vs i d1 l1 m s j"
    and r: "match_inner w cfg vs i k1 d1 l1 j0 (m, s) =
              claim_pair w k1 d1 (fst (vs ! j)) (snd (vs ! j)) (m, s)"
  from c have k2: "fst (vs ! j) \<notin> m" by (simp add: candidate_def)
  from later j have ne: "fst (vs ! j) \<noteq> k1" by simp
  obtain new where new: "console (snd (claim_pair w k1 d1 (fst (vs ! j)) (snd (vs ! j)) (m, s)))
      = console s @ new" "claimed_keys new = [k1, fst (vs ! j)]"
    using claim_pair_console by blast
  have "fst (claim_pair w k1 d1 (fst (vs ! j)) (snd (vs ! j)) (m, s)) = m \<union> set (claimed_keys new)"
    unfolding claim_pair_fst new(2) by auto
  moreover have "distinct (claimed_keys new)" unfolding new(2) using ne by simp
  moreover have "set (claimed_keys new) \<inter> m = {}" unfolding new(2) using k1 k2 by simp
  ultimately show ?thesis unfolding r using new(1) by blast
next
  assume "match_inner w cfg vs i k1 d1 l1 j0 (m, s) = (m, s)"
  then have "console (snd (match_inner w cfg vs i k1 d1 l1 j0 (m, s))) = console s @ []
      \<and> fst (match_inner w cfg vs i k1 d1 l1 j0 (m, s)) = m \<union> set (claimed_keys [])
      \<and> distinct (claimed_keys []) \<and> set (claimed_keys []) \<inter> m = {}"
    by simp
  then show ?thesis by blast
qed

lemma match_outer_claims:
  assumes d: "distinct (map fst vs)"
  shows "\<exists>new. console (snd (match_outer w cfg vs i (m, s))) = console s @ new
           \<and> fst (match_outer w cfg vs i (m, s)) = m \<union> set (claimed_keys new)
           \<and> distinct (claimed_keys new) \<and> set (claimed_keys new) \<inter> m = {}"
proof (induction "length vs - i" arbitrary: i m s)
  case 0
  then have "match_outer w cfg vs i (m, s) = (m, s)"
    by (simp add: match_outer_end)
  then have "console (snd (match_outer w cfg vs i (m, s))) = console s @ []
      \<and> fst (match_outer w cfg vs i (m, s)) = m \<union> set (claimed_keys [])
      \<and> distinct (claimed_keys []) \<and> set (claimed_keys []) \<inter> m = {}"
    by simp
  then show ?case by blast
next
  case (Suc n)
  from Suc.hyps(2) have lt: "i < length vs" and n: "n = length vs - (i + 1)" by simp_all
  show ?case
  proof (cases "fst (vs ! i) \<in> m \<or> zRank s (fst (vs ! i)) = None")
    case True
    with lt have "match_outer w cfg vs i (m, s) = match_outer w cfg vs (i + 1) (m, s)"
      by (rule match_outer_skip)
    with Suc.hyps(1) [OF n, of m s] show ?thesis by simp
  next
    case False
    let ?k1 = "fst (vs ! i)"
    let ?in = "match_inner w cfg vs i ?k1 (snd (vs ! i))
                 (getRelaxationLevel cfg (date_now_outer w i) (snd (vs ! i))) (i + 1) (m, s)"
    from False have k1: "?k1 \<notin> m" by simp
    have later: "\<forall>j. i + 1 \<le> j \<and> j < length vs \<longrightarrow> fst (vs ! j) \<noteq> ?k1"
    proof (intro allI impI)
      fix j assume j: "i + 1 \<le> j \<and> j < length vs"
      then have ji: "j < length (map fst vs)" "i < length (map fst vs)" "j \<noteq> i" by simp_all
      from d ji have "map fst vs ! j \<noteq> map fst vs ! i"
        using nth_eq_iff_index_eq [of "map fst vs" j i] by blast
      with j lt show "fst (vs ! j) \<noteq> ?k1" by simp
    qed
    obtain new1 where new1: "console (snd ?in) = console s @ new1"
        "fst ?in = m \<union> set (claimed_keys new1)" "distinct (claimed_keys new1)"
        "set (claimed_keys new1) \<inter> m = {}"
      using match_inner_claims [OF k1 later] by blast
    obtain new2 where new2:
        "console (snd (match_outer w cfg vs (i + 1) (fst ?in, snd ?in))) = console (snd ?in) @ new2"
        "fst (match_outer w cfg vs (i + 1) (fst ?in, snd ?in)) = fst ?in \<union> set (claimed_keys new2)"
        "distinct (claimed_keys new2)" "set (claimed_keys new2) \<inter> fst ?in = {}"
      using Suc.hyps(1) [OF n, of "fst ?in" "snd ?in"] by blast
    from lt False have r: "match_outer w cfg vs i (m, s) =
        match_outer w cfg vs (i + 1) (fst ?in, snd ?in)"
      by (simp add: match_outer_round)
    have c: "console (snd (match_outer w cfg vs i (m, s))) = console s @ (new1 @ new2)"
    proof -
      have "console (snd (match_outer w cfg vs i (m, s))) = console (snd ?in) @ new2"
        using r new2(1) by simp
      then show ?thesis using new1(1) by simp
    qed
    have f: "fst (match_outer w cfg vs i (m, s)) = m \<union> set (claimed_keys (new1 @ new2))"
    proof -
      have "fst (match_outer w cfg vs i (m, s)) = fst ?in \<union> set (claimed_keys new2)"
        using r new2(2) by simp
      also have "\<dots> = (m \<union> set (claimed_keys new1)) \<union> set (claimed_keys new2)"
        using new1(2) by simp
      finally show ?thesis by (simp add: claimed_keys_append Un_assoc)
    qed
    have di: "distinct (claimed_keys (new1 @ new2))"
      unfolding claimed_keys_append using new1(3) new2(3) new2(4) new1(2) by auto
    have dj: "set (claimed_keys (new1 @ new2)) \<inter> m = {}"
      unfolding claimed_keys_append using new1(4) new2(4) new1(2) by auto
    from c f di dj show ?thesis by blast
  qed
qed

lemma handleTimeouts_console: "console (handleTimeouts w cfg vs now s) = console s"
  using handleTimeouts_rest by blast

lemma four_scan:
  "fst (match_outer (world_at 2000) default_config four_users 0 ({}, state_of four_users)) =
     {''user:x'', ''user:x2'', ''user:y'', ''user:y2''}
   \<and> matching_queue (snd (match_outer (world_at 2000) default_config four_users 0
        ({}, state_of four_users))) = []
   \<and> claimed_keys (console (snd (match_outer (world_at 2000) default_config four_users 0
        ({}, state_of four_users)))) = [''user:x'', ''user:x2'', ''user:y'', ''user:y2'']"
  by (simp add: match_outer.simps match_inner.simps example_defs model_defs insert_commute)

lemma four_scan_fails:
  "fst (match_outer (world_room_fails 2000) default_config four_users 0 ({}, state_of four_users)) =
     {''user:x'', ''user:x2'', ''user:y'', ''user:y2''}
   \<and> matching_queue (snd (match_outer (world_room_fails 2000) default_config four_users 0
        ({}, state_of four_users))) = []
   \<and> console (snd (match_outer (world_room_fails 2000) default_config four_users 0
        ({}, state_of four_users))) =
       [Match_created ''user:x'' user_X ''user:x2'' user_X2, Error_in_handleMatch RoomSaveFailed,
        Match_created ''user:y'' user_Y ''user:y2'' user_Y2, Error_in_handleMatch RoomSaveFailed]
   \<and> match_events (snd (match_outer (world_room_fails 2000) default_config four_users 0
        ({}, state_of four_users))) = []"
  by (simp add: match_outer.simps match_inner.simps example_defs model_defs insert_commute)

text \<open>
  Claim C4. In a scan over a snapshot whose keys are pairwise different (the keys
  of a sorted set are), from any round on and with any set of keys claimed before:
  the keys printed as matched by the scan are pairwise different and were not
  claimed before, and the set of claimed keys grows by exactly these keys. So no
  key is in two pairs of one sweep. The same holds for a whole tick on a queue
  without repeated keys.
\<close>

theorem no_key_claimed_twice:
  "(distinct (map fst validUsers) \<longrightarrow>
      (\<exists>new. console (snd (match_outer w cfg validUsers i (matchedUsers, s))) = console s @ new
         \<and> fst (match_outer w cfg validUsers i (matchedUsers, s)) =
             matchedUsers \<union> set (claimed_keys new)
         \<and> set (claimed_keys new) \<inter> matchedUsers = {}
         \<and> distinct (claimed_keys new)))
   \<and> (distinct (matching_queue s) \<longrightarrow>
      (\<exists>new. console (matchingWorker_tick engine w cfg s) = console s @ new
         \<and> distinct (claimed_keys new)))"
proof -
  have a: "distinct (map fst validUsers) \<longrightarrow>
      (\<exists>new. console (snd (match_outer w cfg validUsers i (matchedUsers, s))) = console s @ new
         \<and> fst (match_outer w cfg validUsers i (matchedUsers, s)) =
             matchedUsers \<union> set (claimed_keys new)
         \<and> set (claimed_keys new) \<inter> matchedUsers = {}
         \<and> distinct (claimed_keys new))"
    using match_outer_claims [of validUsers w cfg i matchedUsers s] by blast
  have b: "distinct (matching_queue s) \<longrightarrow>
      (\<exists>new. console (matchingWorker_tick engine w cfg s) = console s @ new
         \<and> distinct (claimed_keys new))"
  proof
    assume "distinct (matching_queue s)"
    then have d: "distinct (map fst (read_snapshot engine (zRange s) (hGetAll s)))"
      by (simp add: read_snapshot_distinct zRange_def)
    have "console (matchingWorker_tick engine w cfg s) =
        console (snd (match_outer w cfg (read_snapshot engine (zRange s) (hGetAll s)) 0 ({}, s)))"
      by (simp add: matchingWorker_tick_def Let_def handleTimeouts_console)
    with match_outer_claims [OF d, of w cfg 0 "{}" s]
    show "\<exists>new. console (matchingWorker_tick engine w cfg s) = console s @ new
         \<and> distinct (claimed_keys new)" by auto
  qed
  from a b show ?thesis by blast
qed

text \<open>Four users, two pairs, four different keys.\<close>

theorem no_key_claimed_twice_witness:
  "distinct (map fst four_users)
   \<and> distinct (claimed_keys (console (snd (match_outer (world_at 2000) default_config
        four_users 0 ({}, state_of four_users)))))
   \<and> claimed_keys (console (snd (match_outer (world_at 2000) default_config
        four_users 0 ({}, state_of four_users)))) =
       [''user:x'', ''user:x2'', ''user:y'', ''user:y2'']
   \<and> fst (match_outer (world_at 2000) default_config four_users 0 ({}, state_of four_users)) =
       {''user:x'', ''user:x2'', ''user:y'', ''user:y2''}"
proof -
  have d: "distinct (map fst four_users)" by (simp add: four_users_def)
  have c: "console (state_of four_users) = []" by (simp add: state_of_def)
  from no_key_claimed_twice [of four_users "world_at 2000" default_config 0 "{}"
      "state_of four_users", THEN conjunct1] d
  obtain new where "console (snd (match_outer (world_at 2000) default_config four_users 0
      ({}, state_of four_users))) = console (state_of four_users) @ new"
    "distinct (claimed_keys new)" by blast
  then have "distinct (claimed_keys (console (snd (match_outer (world_at 2000) default_config
        four_users 0 ({}, state_of four_users)))))" using c by simp
  with d four_scan show ?thesis by simp
qed





section \<open>Failures of the publisher\<close>

lemma candidate_cong:
  assumes "date_now_inner w' = date_now_inner w" and "matching_queue s' = matching_queue s"
  shows "candidate w' cfg vs i d1 l1 m s' j = candidate w cfg vs i d1 l1 m s j"
  using assms by (simp add: candidate_def zRank_def)

lemma claim_pair_claimed:
  "claimed_keys (console (snd (claim_pair w k1 d1 k2 d2 (m, s)))) =
     claimed_keys (console s) @ [k1, k2]"
proof -
  obtain new where "console (snd (claim_pair w k1 d1 k2 d2 (m, s))) = console s @ new"
      "claimed_keys new = [k1, k2]"
    using claim_pair_console by blast
  then show ?thesis by (simp add: claimed_keys_append)
qed

text \<open>Two runs whose queues and claimed pairs agree stay in step, whatever is published.\<close>

lemma match_inner_sim:
  assumes clk: "date_now_inner w' = date_now_inner w"
    and q: "matching_queue s' = matching_queue s"
    and ck: "claimed_keys (console s') = claimed_keys (console s)"
  shows "fst (match_inner w' cfg vs i k1 d1 l1 j0 (m, s')) =
           fst (match_inner w cfg vs i k1 d1 l1 j0 (m, s))
         \<and> matching_queue (snd (match_inner w' cfg vs i k1 d1 l1 j0 (m, s'))) =
           matching_queue (snd (match_inner w cfg vs i k1 d1 l1 j0 (m, s)))
         \<and> claimed_keys (console (snd (match_inner w' cfg vs i k1 d1 l1 j0 (m, s')))) =
           claimed_keys (console (snd (match_inner w cfg vs i k1 d1 l1 j0 (m, s))))"
  using match_inner_cases [of j0 vs w cfg i d1 l1 m s k1]
proof (elim disjE exE conjE)
  fix j
  assume j: "j0 \<le> j" "j < length vs" and c: "candidate w cfg vs i d1 l1 m s j"
    and b: "\<forall>k. j0 \<le> k \<and> k < j \<longrightarrow> \<not> candidate w cfg vs i d1 l1 m s k"
    and r: "match_inner w cfg vs i k1 d1 l1 j0 (m, s) =
              claim_pair w k1 d1 (fst (vs ! j)) (snd (vs ! j)) (m, s)"
  from c have c': "candidate w' cfg vs i d1 l1 m s' j"
    by (simp add: candidate_cong [OF clk q])
  from b have b': "\<forall>k. j0 \<le> k \<and> k < j \<longrightarrow> \<not> candidate w' cfg vs i d1 l1 m s' k"
    by (simp add: candidate_cong [OF clk q])
  have r': "match_inner w' cfg vs i k1 d1 l1 j0 (m, s') =
              claim_pair w' k1 d1 (fst (vs ! j)) (snd (vs ! j)) (m, s')"
    by (rule match_inner_first [OF j c' b'])
  show ?thesis
    unfolding r r' claim_pair_fst claim_pair_queue claim_pair_claimed using q ck by simp
next
  assume n: "\<forall>k. j0 \<le> k \<and> k < length vs \<longrightarrow> \<not> candidate w cfg vs i d1 l1 m s k"
    and r: "match_inner w cfg vs i k1 d1 l1 j0 (m, s) = (m, s)"
  from n have "\<forall>k. j0 \<le> k \<and> k < length vs \<longrightarrow> \<not> candidate w' cfg vs i d1 l1 m s' k"
    by (simp add: candidate_cong [OF clk q])
  then have "match_inner w' cfg vs i k1 d1 l1 j0 (m, s') = (m, s')"
    by (rule match_inner_none)
  with r q ck show ?thesis by simp
qed

lemma match_outer_sim:
  assumes clk: "date_now_inner w' = date_now_inner w"
    and clo: "date_now_outer w' = date_now_outer w"
  shows "matching_queue s' = matching_queue s \<Longrightarrow>
         claimed_keys (console s') = claimed_keys (console s) \<Longrightarrow>
         fst (match_outer w' cfg vs i (m, s')) = fst (match_outer w cfg vs i (m, s))
         \<and> matching_queue (snd (match_outer w' cfg vs i (m, s'))) =
           matching_queue (snd (match_outer w cfg vs i (m, s)))
         \<and> claimed_keys (console (snd (match_outer w' cfg vs i (m, s')))) =
           claimed_keys (console (snd (match_outer w cfg vs i (m, s))))"
proof (induction "length vs - i" arbitrary: i m s s')
  case 0
  then have "\<not> i < length vs" by simp
  then have "match_outer w' cfg vs i (m, s') = (m, s')" "match_outer w cfg vs i (m, s) = (m, s)"
    by (simp_all add: match_outer_end)
  with 0 show ?case by simp
next
  case (Suc n)
  from Suc.hyps(2) have lt: "i < length vs" and n: "n = length vs - (i + 1)" by simp_all
  have zr: "zRank s' (fst (vs ! i)) = zRank s (fst (vs ! i))"
    using Suc.prems(1) by (simp add: zRank_def)
  show ?case
  proof (cases "fst (vs ! i) \<in> m \<or> zRank s (fst (vs ! i)) = None")
    case True
    then have "fst (vs ! i) \<in> m \<or> zRank s' (fst (vs ! i)) = None" using zr by simp
    from match_outer_skip [OF lt this] match_outer_skip [OF lt True]
      Suc.hyps(1) [OF n Suc.prems]
    show ?thesis by simp
  next
    case False
    let ?l1 = "getRelaxationLevel cfg (date_now_outer w i) (snd (vs ! i))"
    let ?in = "match_inner w cfg vs i (fst (vs ! i)) (snd (vs ! i)) ?l1 (i + 1) (m, s)"
    let ?in' = "match_inner w' cfg vs i (fst (vs ! i)) (snd (vs ! i)) ?l1 (i + 1) (m, s')"
    from False have a: "fst (vs ! i) \<notin> m" "zRank s (fst (vs ! i)) \<noteq> None" by simp_all
    with zr have a': "zRank s' (fst (vs ! i)) \<noteq> None" by simp
    have r: "match_outer w cfg vs i (m, s) = match_outer w cfg vs (i + 1) (fst ?in, snd ?in)"
      using match_outer_round [OF lt a] by simp
    have r': "match_outer w' cfg vs i (m, s') = match_outer w' cfg vs (i + 1) (fst ?in', snd ?in')"
      using match_outer_round [OF lt a(1) a', of w' cfg] clo by simp
    from match_inner_sim [OF clk Suc.prems]
    have i1: "fst ?in' = fst ?in" and i2: "matching_queue (snd ?in') = matching_queue (snd ?in)"
      and i3: "claimed_keys (console (snd ?in')) = claimed_keys (console (snd ?in))"
      by blast+
    from Suc.hyps(1) [OF n i2 i3, of "fst ?in"] show ?thesis
      unfolding r r' i1 .
  qed
qed

lemma match_inner_keeps:
  "hashes (snd (match_inner w cfg vs i k1 d1 l1 j0 (m, s))) = hashes s
   \<and> emitted (snd (match_inner w cfg vs i k1 d1 l1 j0 (m, s))) = emitted s"
  using match_inner_cases [of j0 vs w cfg i d1 l1 m s k1] claim_pair_keeps by auto

lemma match_outer_keeps:
  "hashes (snd (match_outer w cfg vs i (m, s))) = hashes s
   \<and> emitted (snd (match_outer w cfg vs i (m, s))) = emitted s"
proof (induction "length vs - i" arbitrary: i m s)
  case 0
  then show ?case by (simp add: match_outer_end)
next
  case (Suc n)
  from Suc.hyps(2) have lt: "i < length vs" and n: "n = length vs - (i + 1)" by simp_all
  show ?case
  proof (cases "fst (vs ! i) \<in> m \<or> zRank s (fst (vs ! i)) = None")
    case True
    from match_outer_skip [OF lt True] Suc.hyps(1) [OF n] show ?thesis by simp
  next
    case False
    let ?in = "match_inner w cfg vs i (fst (vs ! i)) (snd (vs ! i))
                 (getRelaxationLevel cfg (date_now_outer w i) (snd (vs ! i))) (i + 1) (m, s)"
    from False have a: "fst (vs ! i) \<notin> m" "zRank s (fst (vs ! i)) \<noteq> None" by simp_all
    have r: "match_outer w cfg vs i (m, s) = match_outer w cfg vs (i + 1) (fst ?in, snd ?in)"
      using match_outer_round [OF lt a] by simp
    from Suc.hyps(1) [OF n, of "fst ?in" "snd ?in"] match_inner_keeps [of w cfg vs i _ _ _ "i + 1" m s]
    show ?thesis unfolding r by simp
  qed
qed

lemma due_and_connected_cong:
  "sockets w' = sockets w \<Longrightarrow> due_and_connected w' cfg now vs = due_and_connected w cfg now vs"
proof -
  assume so: "sockets w' = sockets w"
  have "\<And>sid. sockets_get w' sid = sockets_get w sid"
  proof -
    fix sid show "sockets_get w' sid = sockets_get w sid"
      using so by (cases sid) (simp_all add: sockets_get_def)
  qed
  then show ?thesis by (simp add: due_and_connected_def)
qed

lemma tick_sim:
  assumes clk: "date_now_inner w' = date_now_inner w"
    and clo: "date_now_outer w' = date_now_outer w"
    and clt: "date_now_tick w' = date_now_tick w"
    and so: "sockets w' = sockets w"
  shows "matching_queue (matchingWorker_tick engine w' cfg s) = matching_queue (matchingWorker_tick engine w cfg s)
         \<and> hashes (matchingWorker_tick engine w' cfg s) = hashes (matchingWorker_tick engine w cfg s)
         \<and> emitted (matchingWorker_tick engine w' cfg s) = emitted (matchingWorker_tick engine w cfg s)"
proof -
  let ?V = "read_snapshot engine (zRange s) (hGetAll s)"
  have q: "matching_queue (snd (match_outer w' cfg ?V 0 ({}, s))) =
           matching_queue (snd (match_outer w cfg ?V 0 ({}, s)))"
    using match_outer_sim [OF clk clo, where s = s and s' = s and cfg = cfg and vs = "?V"
        and i = 0 and m = "{}"] by simp
  have h: "\<And>w. hashes (snd (match_outer w cfg ?V 0 ({}, s))) = hashes s"
    and e: "\<And>w. emitted (snd (match_outer w cfg ?V 0 ({}, s))) = emitted s"
    using match_outer_keeps by blast+
  show ?thesis
    unfolding matchingWorker_tick_def Let_def handleTimeouts_queue handleTimeouts_hashes
      handleTimeouts_emitted h e q clt due_and_connected_cong [OF so]
    by simp
qed

text \<open>
  Claim C8. \<^verbatim>\<open>handleMatch\<close> never touches the queue or the attribute records, so a
  pair that was removed stays removed; an error that leaves its \<^verbatim>\<open>try\<close> block is
  printed and goes no further, and a failing save of the record, save of the room
  or append to the stream is such an error. Which keys a scan claims, and the queue it leaves,
  do not depend on what the publisher's collaborators answer: two worlds with the
  same clock readings give the same claimed keys and the same queue, and with the
  same sockets the whole tick leaves the same queue, records and notifications.
\<close>

theorem publish_failure_does_not_stop_sweep:
  "matching_queue (handleMatch w u1 u2 s) = matching_queue s
   \<and> hashes (handleMatch w u1 u2 s) = hashes s
   \<and> (\<forall>e. fst (handleMatch_try w u1 u2 s) = Some e \<longrightarrow>
         console (handleMatch w u1 u2 s) = console s @ [Error_in_handleMatch e])
   \<and> (queue_dump_ok w s
       \<and> (event_save w s \<lparr>event_category = or_Any (category u1) (category u2),
              event_difficulty = or_Any (difficulty u1) (difficulty u2)\<rparr> = None
            \<or> (\<forall>st rm. room_save w st rm = None)
            \<or> (\<forall>st msg. \<not> xAdd_ok w st msg))
       \<longrightarrow> fst (handleMatch_try w u1 u2 s)
             \<in> {Some EventSaveFailed, Some RoomSaveFailed, Some StreamAppendFailed})
   \<and> (date_now_inner w' = date_now_inner w \<and> date_now_outer w' = date_now_outer w \<longrightarrow>
         fst (match_outer w' cfg vs i (m, s)) = fst (match_outer w cfg vs i (m, s))
         \<and> matching_queue (snd (match_outer w' cfg vs i (m, s))) =
             matching_queue (snd (match_outer w cfg vs i (m, s)))
         \<and> claimed_keys (console (snd (match_outer w' cfg vs i (m, s)))) =
             claimed_keys (console (snd (match_outer w cfg vs i (m, s)))))
   \<and> (date_now_inner w' = date_now_inner w \<and> date_now_outer w' = date_now_outer w
       \<and> date_now_tick w' = date_now_tick w \<and> sockets w' = sockets w \<longrightarrow>
         matching_queue (matchingWorker_tick engine w' cfg s) = matching_queue (matchingWorker_tick engine w cfg s)
         \<and> hashes (matchingWorker_tick engine w' cfg s) = hashes (matchingWorker_tick engine w cfg s)
         \<and> emitted (matchingWorker_tick engine w' cfg s) = emitted (matchingWorker_tick engine w cfg s))"
proof -
  have a: "\<forall>e. fst (handleMatch_try w u1 u2 s) = Some e \<longrightarrow>
         console (handleMatch w u1 u2 s) = console s @ [Error_in_handleMatch e]"
    by (simp add: handleMatch_console)
  have f: "queue_dump_ok w s
       \<and> (event_save w s \<lparr>event_category = or_Any (category u1) (category u2),
              event_difficulty = or_Any (difficulty u1) (difficulty u2)\<rparr> = None
            \<or> (\<forall>st rm. room_save w st rm = None)
            \<or> (\<forall>st msg. \<not> xAdd_ok w st msg))
       \<longrightarrow> fst (handleMatch_try w u1 u2 s)
             \<in> {Some EventSaveFailed, Some RoomSaveFailed, Some StreamAppendFailed}"
    by (auto simp: handleMatch_try_def createRoom_def Let_def split: option.splits)
  have b: "date_now_inner w' = date_now_inner w \<and> date_now_outer w' = date_now_outer w \<longrightarrow>
         fst (match_outer w' cfg vs i (m, s)) = fst (match_outer w cfg vs i (m, s))
         \<and> matching_queue (snd (match_outer w' cfg vs i (m, s))) =
             matching_queue (snd (match_outer w cfg vs i (m, s)))
         \<and> claimed_keys (console (snd (match_outer w' cfg vs i (m, s)))) =
             claimed_keys (console (snd (match_outer w cfg vs i (m, s))))"
    using match_outer_sim [where w = w and w' = w' and s = s and s' = s and cfg = cfg
        and vs = vs and i = i and m = m] by blast
  have c: "date_now_inner w' = date_now_inner w \<and> date_now_outer w' = date_now_outer w
       \<and> date_now_tick w' = date_now_tick w \<and> sockets w' = sockets w \<longrightarrow>
         matching_queue (matchingWorker_tick engine w' cfg s) = matching_queue (matchingWorker_tick engine w cfg s)
         \<and> hashes (matchingWorker_tick engine w' cfg s) = hashes (matchingWorker_tick engine w cfg s)
         \<and> emitted (matchingWorker_tick engine w' cfg s) = emitted (matchingWorker_tick engine w cfg s)"
    using tick_sim [where w = w and w' = w' and cfg = cfg and s = s and engine = engine]
    by blast
  from a b c f handleMatch_keeps [of w u1 u2 s] show ?thesis by blast
qed

text \<open>
  Saving the room fails for every pair: the error is printed, and the scan still
  claims both pairs and empties the queue.
\<close>

theorem publish_failure_does_not_stop_sweep_witness:
  "date_now_inner (world_room_fails 2000) = date_now_inner (world_at 2000)
   \<and> date_now_outer (world_room_fails 2000) = date_now_outer (world_at 2000)
   \<and> fst (handleMatch_try (world_room_fails 2000) user_X user_X2 (state_of [])) =
       Some RoomSaveFailed
   \<and> console (handleMatch (world_room_fails 2000) user_X user_X2 (state_of [])) =
       [Error_in_handleMatch RoomSaveFailed]
   \<and> fst (match_outer (world_room_fails 2000) default_config four_users 0
        ({}, state_of four_users)) = {''user:x'', ''user:x2'', ''user:y'', ''user:y2''}
   \<and> matching_queue (snd (match_outer (world_room_fails 2000) default_config four_users 0
        ({}, state_of four_users))) = []
   \<and> console (snd (match_outer (world_room_fails 2000) default_config four_users 0
        ({}, state_of four_users))) =
       [Match_created ''user:x'' user_X ''user:x2'' user_X2, Error_in_handleMatch RoomSaveFailed,
        Match_created ''user:y'' user_Y ''user:y2'' user_Y2, Error_in_handleMatch RoomSaveFailed]"
proof -
  have c: "date_now_inner (world_room_fails 2000) = date_now_inner (world_at 2000)"
    "date_now_outer (world_room_fails 2000) = date_now_outer (world_at 2000)"
    by (simp_all add: world_room_fails_def)
  have t: "fst (handleMatch_try (world_room_fails 2000) user_X user_X2 (state_of [])) =
       Some RoomSaveFailed"
    by (simp add: example_defs model_defs)
  have e: "console (state_of []) = []" by (simp add: state_of_def)
  from publish_failure_does_not_stop_sweep [where w = "world_at 2000"
      and w' = "world_room_fails 2000" and ?u1.0 = user_X and ?u2.0 = user_X2
      and s = "state_of four_users" and cfg = default_config and vs = four_users
      and i = 0 and m = "{}"] c
  have sweep: "fst (match_outer (world_room_fails 2000) default_config four_users 0
        ({}, state_of four_users)) =
      fst (match_outer (world_at 2000) default_config four_users 0 ({}, state_of four_users))"
    "matching_queue (snd (match_outer (world_room_fails 2000) default_config four_users 0
        ({}, state_of four_users))) =
      matching_queue (snd (match_outer (world_at 2000) default_config four_users 0
        ({}, state_of four_users)))"
    by simp_all
  from publish_failure_does_not_stop_sweep [where w = "world_room_fails 2000"
      and w' = "world_room_fails 2000" and ?u1.0 = user_X and ?u2.0 = user_X2
      and s = "state_of []" and cfg = default_config and vs = "[]" and i = 0 and m = "{}"] t e
  have l: "console (handleMatch (world_room_fails 2000) user_X user_X2 (state_of [])) =
       [Error_in_handleMatch RoomSaveFailed]"
    by simp
  from c t l sweep four_scan four_scan_fails show ?thesis by simp
qed

end
